theory Spec2Isabelle
  imports Main "HOL-Library.Word"
begin

section \<open>The tokenizer (lex.l)\<close>

text \<open>
  A token is the C string the scanner duplicated into \<open>_args\<close>: a word, one of the
  one-character symbols \<open><\<close>, \<open>>\<close>, \<open>|\<close>, or a built-in marker, the two-character string
  made of a newline followed by \<open>T_EXIT\<close> or \<open>T_CD\<close>.  The NULL-terminated array
  \<open>_args\<close> is a list of strings; \<open>_argcount\<close> is its length.
\<close>

definition NUMARGS :: nat where
  "NUMARGS = 64"

definition T_CD :: char where
  "T_CD = CHR ''c''"

definition T_EXIT :: char where
  "T_EXIT = CHR ''e''"

definition add_arg :: "string \<Rightarrow> string list \<Rightarrow> string list" where
  "add_arg text as = (if length as < NUMARGS - 1 then as @ [text] else as)"

definition ADD_TOK :: "char \<Rightarrow> string list \<Rightarrow> string list" where
  "ADD_TOK T as = add_arg [CHR 0x0A, T] as"

definition in_range :: "char \<Rightarrow> char \<Rightarrow> char \<Rightarrow> bool" where
  "in_range lo hi c = ((of_char lo :: nat) \<le> of_char c \<and> (of_char c :: nat) \<le> of_char hi)"

text \<open>The character class of \<open>WORD\<close>, \<open>[~a-zA-Z0-9\/\.-]\<close>, and of \<open>SPECIAL\<close>, \<open>[><|]\<close>.\<close>

definition WORD :: "char \<Rightarrow> bool" where
  "WORD c = (c = CHR ''~'' \<or> in_range CHR ''a'' CHR ''z'' c \<or> in_range CHR ''A'' CHR ''Z'' c
      \<or> in_range CHR ''0'' CHR ''9'' c \<or> c = CHR ''/'' \<or> c = CHR ''.'' \<or> c = CHR ''-'')"

definition SPECIAL :: "char \<Rightarrow> bool" where
  "SPECIAL c = (c = CHR ''>'' \<or> c = CHR ''<'' \<or> c = CHR ''|'')"

definition blank :: "char \<Rightarrow> bool" where
  "blank c = (c = CHR '' '' \<or> c = CHR 0x09)"

text \<open>
  One call of \<open>yylex\<close> on the unread input.  The scanner takes the longest match at the
  current position and, among matches of the same length, the rule written first:
  \<^item> \<open>||\<close> (two characters) beats \<open>SPECIAL\<close> (one character) and is dropped;
  \<^item> at a word character the longest match is the maximal run of word characters; the rules
    \<open>exit\<close> and \<open>cd\<close> match a prefix of that run and win exactly when the run is the
    keyword itself (same length, earlier rule);
  \<^item> newline, \<open>;\<close> and end of input set \<open>*_status\<close> to 1, 0, -1 and return;
  \<^item> a run of blanks and any other single character are skipped.
  The result is the token array, the status and the input left unread.
\<close>

function yylex :: "string list \<Rightarrow> string \<Rightarrow> string list \<times> int \<times> string" where
  "yylex as [] = (as, - 1, [])"
| "yylex as (c # cs) =
    (if c = CHR ''|'' \<and> cs \<noteq> [] \<and> hd cs = CHR ''|'' then yylex as (tl cs)
     else if WORD c then
       (if c # takeWhile WORD cs = ''exit'' then yylex (ADD_TOK T_EXIT as) (dropWhile WORD cs)
        else if c # takeWhile WORD cs = ''cd'' then yylex (ADD_TOK T_CD as) (dropWhile WORD cs)
        else yylex (add_arg (c # takeWhile WORD cs) as) (dropWhile WORD cs))
     else if SPECIAL c then yylex (add_arg [c] as) cs
     else if c = CHR 0x0A then (as, 1, cs)
     else if c = CHR '';'' then (as, 0, cs)
     else if blank c then yylex as (dropWhile blank cs)
     else yylex as cs)"
  by pat_completeness auto
termination
proof (relation "measure (\<lambda>(as, inp). length inp)")
  show "wf (measure (\<lambda>(as, inp). length inp))"
    by simp
qed (auto simp: length_dropWhile_le less_Suc_eq_le)

text \<open>\<open>getline\<close>: the scanner's initial action resets \<open>_argcount\<close> and \<open>_args[0]\<close>.\<close>

definition getline :: "string \<Rightarrow> string list \<times> int \<times> string" where
  "getline inp = yylex [] inp"

section \<open>Commands (minshell.c)\<close>

record Cmd =
  args :: "string list"
  argn :: nat
  files_in :: "string list"
  files_out :: "string list"

definition CMD_SUCCESS :: int where
  "CMD_SUCCESS = 0"

definition CMD_FAILURE :: int where
  "CMD_FAILURE = 1"

definition CMD_EXIT :: int where
  "CMD_EXIT = 2"

text \<open>\<open>PARSE_ERR(token)\<close> writes this line to standard error and has the value 0.\<close>

definition PARSE_ERR :: "string \<Rightarrow> string" where
  "PARSE_ERR token = ''minshell: syntax error near unexpected token '' @ [CHR 0x60] @ token
      @ [CHR 0x27, CHR 0x0A]"

text \<open>\<open>arg[1] == '\0' && (arg[0] == '<' || arg[0] == '>')\<close> and
  \<open>arg[1] == '\0' && arg[0] == '|'\<close> on a non-empty C string.\<close>

definition is_redirect :: "string \<Rightarrow> bool" where
  "is_redirect arg = (case arg of [c] \<Rightarrow> c = CHR ''<'' \<or> c = CHR ''>'' | _ \<Rightarrow> False)"

definition is_pipe :: "string \<Rightarrow> bool" where
  "is_pipe arg = (case arg of [c] \<Rightarrow> c = CHR ''|'' | _ \<Rightarrow> False)"

subsection \<open>new_cmd\<close>

text \<open>
  The local variables of \<open>new_cmd\<close> that its scan loop updates.  \<open>v_argn\<close> is \<open>_argn\<close>;
  the index arrays \<open>files_in\<close> and \<open>files_out\<close> with their counts \<open>in_n\<close> and \<open>out_n\<close>
  are the lists \<open>in_idx\<close> and \<open>out_idx\<close>; \<open>last_symbol\<close> is 0 until a symbol is seen.
\<close>

record new_cmd_vars =
  v_argn :: nat
  last_index :: nat
  last_symbol :: char
  in_idx :: "nat list"
  out_idx :: "nat list"

function new_cmd_scan :: "string list \<Rightarrow> nat \<Rightarrow> nat \<Rightarrow> new_cmd_vars \<Rightarrow> string + new_cmd_vars" where
  "new_cmd_scan argv n i v =
    (if i < n then
       (if is_redirect (argv ! i) then
          (if int i = int n - 1 \<or> int i - int (last_index v) = 0 then Inl (argv ! i)
           else new_cmd_scan argv n (i + 1)
                  (v\<lparr>v_argn := (if v_argn v = n then i else v_argn v),
                     last_symbol := hd (argv ! i), last_index := i + 1\<rparr>))
        else if last_symbol v \<noteq> CHR 0x00 then
          (if last_symbol v = CHR ''<''
           then new_cmd_scan argv n (i + 1) (v\<lparr>in_idx := in_idx v @ [i]\<rparr>)
           else new_cmd_scan argv n (i + 1) (v\<lparr>out_idx := out_idx v @ [i]\<rparr>))
        else new_cmd_scan argv n (i + 1) v)
     else Inr v)"
  by pat_completeness auto
termination
  by (relation "measure (\<lambda>(argv, n, i, v). n - i)") auto

text \<open>
  \<open>new_cmd(args, argn, &err)\<close>: \<open>Inl err\<close> is the NULL result with \<open>*err\<close> set, \<open>Inr\<close>
  the command built.  \<open>argv\<close> is the array from the pointer passed on, which extends
  beyond the \<open>n\<close> tokens of the segment.  Allocation is taken to succeed.
\<close>

definition new_cmd :: "string list \<Rightarrow> nat \<Rightarrow> string + Cmd" where
  "new_cmd argv n =
    (case new_cmd_scan argv n 0
            \<lparr>v_argn = n, last_index = 0, last_symbol = CHR 0x00, in_idx = [], out_idx = []\<rparr> of
       Inl err \<Rightarrow> Inl err
     | Inr v \<Rightarrow> Inr \<lparr>args = take (v_argn v) argv, argn = v_argn v,
                    files_in = map (\<lambda>k. argv ! k) (in_idx v),
                    files_out = map (\<lambda>k. argv ! k) (out_idx v)\<rparr>)"

subsection \<open>parse\<close>

text \<open>
  \<open>parse\<close> writes \<open>cmds[*cmdn]\<close> without a bounds check and keeps a segment's length in a
  \<open>char\<close>.  The model stops with a fault where the write would fall outside the array
  handed in, and where the length does not fit a \<open>char\<close> (above 127).
\<close>

datatype fault = CmdsOverrun | ArgnOverflow | NullDeref

record parse_result =
  ret :: int
  cmds_out :: "Cmd option list"
  cmdn_out :: nat
  stderr_out :: "string list"

function parse_loop ::
  "string list \<Rightarrow> nat \<Rightarrow> nat \<Rightarrow> Cmd option list \<Rightarrow> nat \<Rightarrow> fault + parse_result" where
  "parse_loop argv i last_cmd cmds cmdn =
    (if i < length argv then
       (if is_pipe (argv ! i) then
          (if 127 < i - last_cmd then Inl ArgnOverflow
           else if i - last_cmd = 0 then
             Inr \<lparr>ret = 0, cmds_out = cmds, cmdn_out = cmdn, stderr_out = [PARSE_ERR ''|'']\<rparr>
           else if \<not> cmdn < length cmds then Inl CmdsOverrun
           else (case new_cmd (drop last_cmd argv) (i - last_cmd) of
                   Inl err \<Rightarrow>
                     Inr \<lparr>ret = 0, cmds_out = cmds[cmdn := None], cmdn_out = cmdn,
                          stderr_out = [PARSE_ERR err]\<rparr>
                 | Inr cmd \<Rightarrow> parse_loop argv (i + 1) (i + 1) (cmds[cmdn := Some cmd]) (cmdn + 1)))
        else parse_loop argv (i + 1) last_cmd cmds cmdn)
     else
       (if 127 < i - last_cmd then Inl ArgnOverflow
        else if i - last_cmd > 0 then
          (if \<not> cmdn < length cmds then Inl CmdsOverrun
           else (case new_cmd (drop last_cmd argv) (i - last_cmd) of
                   Inl err \<Rightarrow>
                     Inr \<lparr>ret = 0, cmds_out = cmds[cmdn := None], cmdn_out = cmdn,
                          stderr_out = [PARSE_ERR err]\<rparr>
                 | Inr cmd \<Rightarrow>
                     Inr \<lparr>ret = 1, cmds_out = cmds[cmdn := Some cmd], cmdn_out = cmdn + 1,
                          stderr_out = []\<rparr>))
        else Inr \<lparr>ret = 0, cmds_out = cmds, cmdn_out = cmdn, stderr_out = [PARSE_ERR ''|'']\<rparr>))"
  by pat_completeness auto
termination
  by (relation "measure (\<lambda>(argv, i, last_cmd, cmds, cmdn). length argv - i)") auto

definition parse :: "string list \<Rightarrow> Cmd option list \<Rightarrow> fault + parse_result" where
  "parse argv cmds =
    (if argv = [] then Inr \<lparr>ret = 0, cmds_out = cmds, cmdn_out = 0, stderr_out = []\<rparr>
     else parse_loop argv 0 0 cmds 0)"

section \<open>The operating system as seen by the interpreter\<close>

text \<open>
  The interpreter's process state and the system calls it makes.  What the system decides is
  a parameter of the world: the outcome of the k-th \<open>pipe\<close> and \<open>fork\<close> call, what
  \<open>chdir\<close> does from a directory with a path, whether and with which exit code a child
  ends, and which ended child \<open>wait\<close> hands over first.  An error is the text of
  \<open>strerror(errno)\<close>.  A child is known by its process id, the number of the \<open>fork\<close> call
  that made it; what it does after \<open>fork\<close> (opening the redirect files, \<open>dup2\<close>,
  \<open>execvp\<close>) happens in another process and shows here only as its exit code.  The lists
  \<open>spawned\<close>, \<open>reaped\<close> and \<open>closed\<close> log the \<open>fork\<close>, \<open>wait\<close> and \<open>close\<close> calls made.
\<close>

record proc =
  pid :: nat
  pcmd :: Cmd
  fd_in :: int
  fd_out :: int

record world =
  cwd :: string
  HOME :: "string option"
  fs_chdir :: "string \<Rightarrow> string \<Rightarrow> string + string"
  isatty_stdin :: bool
  pipe_result :: "nat \<Rightarrow> string + (int \<times> int)"
  pipe_calls :: nat
  fork_result :: "nat \<Rightarrow> string option"
  fork_calls :: nat
  child_exit :: "nat \<Rightarrow> 8 word option"
  reap_choice :: "nat list \<Rightarrow> nat"
  children :: "nat list"
  spawned :: "proc list"
  reaped :: "(nat \<times> int) list"
  closed :: "int list"
  stdout :: "string list"
  stderr :: "string list"

text \<open>
  A call returns (\<open>Done\<close>), stops the model at undefined behaviour (\<open>Fault\<close>), or never
  returns because \<open>wait\<close> blocks on children that never end (\<open>Blocked\<close>).
\<close>

datatype 'a outcome = Done 'a | Fault fault | Blocked

definition STDIN_FILENO :: int where
  "STDIN_FILENO = 0"

definition STDOUT_FILENO :: int where
  "STDOUT_FILENO = 1"

definition eprint :: "string \<Rightarrow> world \<Rightarrow> world" where
  "eprint msg w = w\<lparr>stderr := stderr w @ [msg]\<rparr>"

definition perror :: "string \<Rightarrow> string \<Rightarrow> world \<Rightarrow> world" where
  "perror s e w = eprint (s @ '': '' @ e @ [CHR 0x0A]) w"

definition pipe :: "world \<Rightarrow> (string + int \<times> int) \<times> world" where
  "pipe w = (pipe_result w (pipe_calls w), w\<lparr>pipe_calls := Suc (pipe_calls w)\<rparr>)"

definition close :: "int \<Rightarrow> world \<Rightarrow> world" where
  "close fd w = w\<lparr>closed := closed w @ [fd]\<rparr>"

text \<open>\<open>fork\<close> in the parent: the error, or the new child's process id (never 0).\<close>

definition fork :: "Cmd \<Rightarrow> int \<Rightarrow> int \<Rightarrow> world \<Rightarrow> (string + nat) \<times> world" where
  "fork cmd file_in file_out w =
    (case fork_result w (fork_calls w) of
       Some e \<Rightarrow> (Inl e, w\<lparr>fork_calls := Suc (fork_calls w)\<rparr>)
     | None \<Rightarrow>
         (Inr (Suc (fork_calls w)),
          w\<lparr>fork_calls := Suc (fork_calls w),
            children := children w @ [Suc (fork_calls w)],
            spawned := spawned w @
              [\<lparr>pid = Suc (fork_calls w), pcmd = cmd, fd_in = file_in, fd_out = file_out\<rparr>]\<rparr>))"

text \<open>The wait status of a child that called \<open>exit(c)\<close>: 0 exactly for exit code 0.\<close>

definition wstatus :: "8 word \<Rightarrow> int" where
  "wstatus c = 256 * uint c"

text \<open>
  \<open>wait(&status)\<close>: -1 and \<open>status\<close> untouched without children; otherwise it blocks until
  a child has ended, removes that child, stores its status and returns its process id.
\<close>

definition wait :: "int \<Rightarrow> world \<Rightarrow> (int \<times> int \<times> world) outcome" where
  "wait status w =
    (if children w = [] then Done (- 1, status, w)
     else
       (case filter (\<lambda>p. child_exit w p \<noteq> None) (children w) of
          [] \<Rightarrow> Blocked
        | q # qs \<Rightarrow>
            (let p = (q # qs) ! (reap_choice w (q # qs) mod length (q # qs)) in
             case child_exit w p of
               None \<Rightarrow> Blocked
             | Some c \<Rightarrow>
                 Done (int p, wstatus c,
                       w\<lparr>children := remove1 p (children w),
                         reaped := reaped w @ [(p, wstatus c)]\<rparr>))))"

text \<open>\<open>while(wait(&status) > 0);\<close>\<close>

function wait_loop :: "int \<Rightarrow> world \<Rightarrow> (int \<times> world) outcome" where
  "wait_loop status w =
    (case wait status w of
       Done (r, status', w') \<Rightarrow> if r > 0 then wait_loop status' w' else Done (status', w')
     | Fault f \<Rightarrow> Fault f
     | Blocked \<Rightarrow> Blocked)"
  by pat_completeness auto

termination
proof (relation "measure (\<lambda>(status, w). length (children w))")
  show "wf (measure (\<lambda>(status, w). length (children w)))"
    by simp
next
  fix status :: int and w :: world and x1 x y xa ya
  assume h: "wait status w = Done x1" "(x, y) = x1" "(xa, ya) = y" "0 < x"
  from h have ne: "children w \<noteq> []"
    by (auto simp: wait_def)
  define ts where "ts = filter (\<lambda>p. child_exit w p \<noteq> None) (children w)"
  define p where "p = ts ! (reap_choice w ts mod length ts)"
  from h ne have tne: "ts \<noteq> []"
    by (auto simp: wait_def ts_def split: list.splits)
  then have "p \<in> set ts"
    by (simp add: p_def)
  then have pin: "p \<in> set (children w)"
    by (simp add: ts_def)
  from h ne tne have "children ya = remove1 p (children w)"
    by (auto simp: wait_def Let_def ts_def p_def split: list.splits option.splits)
  with pin ne have "length (children ya) < length (children w)"
    by (simp add: length_remove1)
  then show "((xa, ya), status, w) \<in> measure (\<lambda>(status, w). length (children w))"
    by simp
qed

section \<open>Executing commands (minshell.c)\<close>

text \<open>\<open>s[i]\<close> on a C string: the terminating 0 at index \<open>length s\<close>.\<close>

definition char_at :: "string \<Rightarrow> nat \<Rightarrow> char" where
  "char_at s i = (if i < length s then s ! i else CHR 0x00)"

definition cmd_exit :: "Cmd \<Rightarrow> world \<Rightarrow> (int \<times> world) outcome" where
  "cmd_exit cmd w = Done (CMD_EXIT, w)"

text \<open>The last step of \<open>cmd_cd\<close>: \<open>chdir(path)\<close> and its report.\<close>

definition chdir :: "string \<Rightarrow> world \<Rightarrow> int \<times> world" where
  "chdir path w =
    (case fs_chdir w (cwd w) path of
       Inl e \<Rightarrow> (CMD_FAILURE, eprint (''cd: '' @ path @ '': '' @ e @ [CHR 0x0A]) w)
     | Inr d \<Rightarrow> (CMD_SUCCESS, w\<lparr>cwd := d\<rparr>))"

text \<open>
  \<open>cmd_cd\<close> reads \<open>cmd->args[1]\<close>, which is the terminating NULL when the command has
  one argument and lies outside the array when it has none.
\<close>

definition cmd_cd :: "Cmd \<Rightarrow> world \<Rightarrow> (int \<times> world) outcome" where
  "cmd_cd cmd w =
    (case args cmd of
       [] \<Rightarrow> Fault NullDeref
     | arg0 # rest \<Rightarrow>
         if rest \<noteq> [] \<and> argn cmd > 2 then
           Done (CMD_FAILURE, eprint (''cd: too many arguments'' @ [CHR 0x0A]) w)
         else
           (let path = (if rest = [] then ''~'' else hd rest) in
            if char_at path 0 = CHR ''~'' then
              (if char_at path 1 = CHR 0x00 then
                 (case HOME w of
                    None \<Rightarrow>
                      Done (CMD_FAILURE,
                            eprint (''cd: $HOME env variable is invalid'' @ [CHR 0x0A]) w)
                  | Some h \<Rightarrow> Done (chdir h w))
               else
                 Done (CMD_FAILURE,
                       eprint (''cd: tilde expansion is not supported'' @ [CHR 0x0A]) w))
            else Done (chdir path w)))"

text \<open>
  \<open>spawn\<close>: a built-in runs in this process; anything else is forked.  \<open>arg0\<close> is
  \<open>cmd->args[0]\<close>, NULL for a command without arguments.
\<close>

definition spawn :: "Cmd \<Rightarrow> int \<Rightarrow> int \<Rightarrow> world \<Rightarrow> (int \<times> world) outcome" where
  "spawn cmd file_in file_out w =
    (case args cmd of
       [] \<Rightarrow> Fault NullDeref
     | arg0 # rest \<Rightarrow>
         if char_at arg0 0 = CHR 0x0A \<and> char_at arg0 1 = T_EXIT then cmd_exit cmd w
         else if char_at arg0 0 = CHR 0x0A \<and> char_at arg0 1 = T_CD then cmd_cd cmd w
         else
           (case fork cmd file_in file_out w of
              (Inl e, w') \<Rightarrow> Done (CMD_FAILURE, perror ''minshell: process spawn error'' e w')
            | (Inr p, w') \<Rightarrow> Done (CMD_SUCCESS, w')))"

definition exec :: "Cmd \<Rightarrow> world \<Rightarrow> (int \<times> world) outcome" where
  "exec cmd w =
    (case spawn cmd STDIN_FILENO STDOUT_FILENO w of
       Done (r, w') \<Rightarrow>
         if r = CMD_EXIT then Done (CMD_EXIT, w')
         else
           (case wait_loop 0 w' of
              Done (status, w'') \<Rightarrow>
                Done (if status = 0 then CMD_SUCCESS else CMD_FAILURE, w'')
            | Fault f \<Rightarrow> Fault f
            | Blocked \<Rightarrow> Blocked)
     | Fault f \<Rightarrow> Fault f
     | Blocked \<Rightarrow> Blocked)"

text \<open>\<open>cmds[i]\<close> dereferenced: an index outside the array and a NULL entry are faults.\<close>

definition cmd_at :: "Cmd option list \<Rightarrow> nat \<Rightarrow> Cmd outcome" where
  "cmd_at cmds i =
    (if i < length cmds then
       (case cmds ! i of None \<Rightarrow> Fault NullDeref | Some c \<Rightarrow> Done c)
     else Fault CmdsOverrun)"

text \<open>
  The \<open>for\<close> loop of \<open>exec_pipe\<close> either returns from the function (\<open>Return\<close>) or is
  left, at its end or by \<open>break\<close>, with the values of \<open>i\<close> and \<open>file_in\<close> (\<open>Leave\<close>).
\<close>

datatype loop_exit = Return int | Leave nat int

function exec_pipe_loop ::
  "Cmd option list \<Rightarrow> nat \<Rightarrow> nat \<Rightarrow> int \<Rightarrow> world \<Rightarrow> (loop_exit \<times> world) outcome" where
  "exec_pipe_loop cmds cmdn i file_in w =
    (if int i < int cmdn - 1 then
       (case pipe w of
          (Inl e, w1) \<Rightarrow> Done (Leave i file_in, perror ''minshell: pipe error'' e w1)
        | (Inr (rd, wr), w1) \<Rightarrow>
            (case cmd_at cmds i of
               Done c \<Rightarrow>
                 (case spawn c file_in wr w1 of
                    Done (r, w2) \<Rightarrow>
                      if r = CMD_EXIT then Done (Return CMD_EXIT, w2)
                      else exec_pipe_loop cmds cmdn (i + 1) rd (close wr w2)
                  | Fault f \<Rightarrow> Fault f
                  | Blocked \<Rightarrow> Blocked)
             | Fault f \<Rightarrow> Fault f
             | Blocked \<Rightarrow> Blocked))
     else Done (Leave i file_in, w))"
  by pat_completeness auto
termination
  by (relation "measure (\<lambda>(cmds, cmdn, i, file_in, w). cmdn - i)") auto

definition exec_pipe :: "Cmd option list \<Rightarrow> nat \<Rightarrow> world \<Rightarrow> (int \<times> world) outcome" where
  "exec_pipe cmds cmdn w =
    (case exec_pipe_loop cmds cmdn 0 STDIN_FILENO w of
       Done (Return r, w1) \<Rightarrow> Done (r, w1)
     | Done (Leave i file_in, w1) \<Rightarrow>
         (case cmd_at cmds i of
            Done c \<Rightarrow>
              (case spawn c file_in STDOUT_FILENO w1 of
                 Done (r, w2) \<Rightarrow>
                   if r = CMD_EXIT then Done (CMD_EXIT, w2)
                   else
                     (case wait_loop 0 w2 of
                        Done (status, w3) \<Rightarrow>
                          Done (if status = 0 then CMD_SUCCESS else CMD_FAILURE, w3)
                      | Fault f \<Rightarrow> Fault f
                      | Blocked \<Rightarrow> Blocked)
               | Fault f \<Rightarrow> Fault f
               | Blocked \<Rightarrow> Blocked)
          | Fault f \<Rightarrow> Fault f
          | Blocked \<Rightarrow> Blocked)
     | Fault f \<Rightarrow> Fault f
     | Blocked \<Rightarrow> Blocked)"

section \<open>The driver loop (main)\<close>

text \<open>
  The variables of \<open>main\<close> that live across iterations, the unread standard input and
  the world.  \<open>sh_cmds\<close> is the array \<open>Cmd *cmds[32]\<close>.
\<close>

record shell =
  sh_running :: bool
  sh_status :: int
  sh_input :: string
  sh_cmds :: "Cmd option list"
  sh_cmdn :: nat
  sh_world :: world

definition PROMPT :: string where
  "PROMPT = [CHR 0x1B] @ ''[36m'' @ ''minshell'' @ [CHR 0x1B] @ ''[1m'' @ '' $ ''
      @ [CHR 0x1B] @ ''[0m''"

text \<open>One iteration of the \<open>while (running)\<close> loop.  Freeing is not modelled.\<close>

definition main_iter :: "shell \<Rightarrow> shell outcome" where
  "main_iter sh =
    (let w0 = (if isatty_stdin (sh_world sh) \<and> sh_status sh \<noteq> 0
               then (sh_world sh)\<lparr>stdout := stdout (sh_world sh) @ [PROMPT]\<rparr>
               else sh_world sh);
         (as, status, rest) = getline (sh_input sh);
         running = (if status = - 1 then False else sh_running sh)
     in case parse as (sh_cmds sh) of
          Inl f \<Rightarrow> Fault f
        | Inr pr \<Rightarrow>
            (let w1 = w0\<lparr>stderr := stderr w0 @ stderr_out pr\<rparr> in
             if ret pr \<noteq> 0 \<and> cmdn_out pr > 0 then
               (case (if cmdn_out pr > 1 then exec_pipe (cmds_out pr) (cmdn_out pr) w1
                      else (case cmd_at (cmds_out pr) 0 of
                              Done c \<Rightarrow> exec c w1
                            | Fault f \<Rightarrow> Fault f
                            | Blocked \<Rightarrow> Blocked)) of
                  Done (r, w2) \<Rightarrow>
                    Done \<lparr>sh_running = (if r = CMD_EXIT then False else running),
                          sh_status = status, sh_input = rest, sh_cmds = cmds_out pr,
                          sh_cmdn = cmdn_out pr, sh_world = w2\<rparr>
                | Fault f \<Rightarrow> Fault f
                | Blocked \<Rightarrow> Blocked)
             else
               Done \<lparr>sh_running = running, sh_status = status, sh_input = rest,
                     sh_cmds = cmds_out pr, sh_cmdn = cmdn_out pr, sh_world = w1\<rparr>))"

text \<open>
  The loop itself.  Every call of \<open>getline\<close> either consumes input or reports the end of
  input, which stops the loop, so the loop ends on every finite input unless an iteration
  blocks.
\<close>

function main_loop :: "shell \<Rightarrow> shell outcome" where
  "main_loop sh =
    (if sh_running sh then
       (case main_iter sh of
          Done sh' \<Rightarrow> main_loop sh'
        | Fault f \<Rightarrow> Fault f
        | Blocked \<Rightarrow> Blocked)
     else Done sh)"
  by pat_completeness auto
termination
proof (relation "measure (\<lambda>sh. length (sh_input sh) + (if sh_running sh then 1 else 0))")
  show "wf (measure (\<lambda>sh. length (sh_input sh) + (if sh_running sh then 1 else 0)))"
    by simp
next
  fix sh sh'
  assume r: "sh_running sh" and it: "main_iter sh = Done sh'"
  have shorter: "yylex as inp = (as', st, rest) \<Longrightarrow>
      length rest \<le> length inp \<and> (st \<noteq> - 1 \<longrightarrow> length rest < length inp)"
    for as inp as' st rest
  proof (induction as inp arbitrary: as' st rest rule: yylex.induct)
    case (1 as)
    then show ?case by simp
  next
    case (2 as c cs)
    have d: "length (dropWhile P cs) \<le> length cs" for P
      by (rule length_dropWhile_le)
    have t: "length (tl cs) \<le> length cs"
      by simp
    show ?case
      using 2 d[of WORD] d[of blank] t
      by (fastforce split: if_splits)
  qed
  obtain as st rest where g: "getline (sh_input sh) = (as, st, rest)"
    by (cases "getline (sh_input sh)") auto
  then have y: "length rest \<le> length (sh_input sh)
      \<and> (st \<noteq> - 1 \<longrightarrow> length rest < length (sh_input sh))"
    unfolding getline_def by (rule shorter)
  from it g have i: "sh_input sh' = rest"
    by (auto simp: main_iter_def Let_def
        split: sum.splits if_splits outcome.splits prod.splits)
  from it g have "st = - 1 \<longrightarrow> \<not> sh_running sh'"
    by (auto simp: main_iter_def Let_def
        split: sum.splits if_splits outcome.splits prod.splits)
  with y i r
  show "(sh', sh) \<in> measure (\<lambda>sh. length (sh_input sh) + (if sh_running sh then 1 else 0))"
    by auto
qed

text \<open>\<open>main\<close>: \<open>running = 1\<close>, \<open>status = 1\<close>; \<open>cmds\<close> and \<open>cmdn\<close> start uninitialised.\<close>

definition main :: "string \<Rightarrow> Cmd option list \<Rightarrow> nat \<Rightarrow> world \<Rightarrow> shell outcome" where
  "main inp cmds0 cmdn0 w =
    main_loop \<lparr>sh_running = True, sh_status = 1, sh_input = inp, sh_cmds = cmds0,
               sh_cmdn = cmdn0, sh_world = w\<rparr>"

section \<open>What the command builder is to compute\<close>

text \<open>
  The notions the properties below are stated with, over a token segment \<open>seg\<close>.
  A redirect symbol is misplaced when it is the first or the final token of the segment or
  comes right after another redirect symbol; \<open>first_bad\<close> is the first such position.
  \<open>latest_symbol seg i\<close> is the last redirect symbol before position \<open>i\<close>, and
  \<open>files_of d seg\<close> lists, in order, the tokens that are not redirect symbols and whose
  latest redirect symbol is \<open>d\<close>.  \<open>built seg\<close> is the command a segment stands for.
\<close>

definition bad_redirect :: "string list \<Rightarrow> nat \<Rightarrow> bool" where
  "bad_redirect seg i =
    (is_redirect (seg ! i) \<and> (i = 0 \<or> Suc i = length seg \<or> is_redirect (seg ! (i - 1))))"

definition first_bad :: "string list \<Rightarrow> nat option" where
  "first_bad seg = find (bad_redirect seg) [0..<length seg]"

definition latest_symbol :: "string list \<Rightarrow> nat \<Rightarrow> string option" where
  "latest_symbol seg i =
    (if filter is_redirect (take i seg) = [] then None
     else Some (last (filter is_redirect (take i seg))))"

definition files_of :: "string \<Rightarrow> string list \<Rightarrow> string list" where
  "files_of d seg =
    map (\<lambda>i. seg ! i)
      (filter (\<lambda>i. \<not> is_redirect (seg ! i) \<and> latest_symbol seg i = Some d) [0..<length seg])"

definition built :: "string list \<Rightarrow> Cmd" where
  "built seg =
    \<lparr>args = takeWhile (\<lambda>t. \<not> is_redirect t) seg,
     argn = length (takeWhile (\<lambda>t. \<not> is_redirect t) seg),
     files_in = files_of ''<'' seg, files_out = files_of ''>'' seg\<rparr>"

text \<open>The loop invariant of the scan in \<open>new_cmd\<close>, after \<open>i\<close> tokens.\<close>

definition idx_of :: "string \<Rightarrow> string list \<Rightarrow> nat \<Rightarrow> nat list" where
  "idx_of d seg i =
      filter (\<lambda>k. \<not> is_redirect (seg ! k) \<and> latest_symbol seg k = Some d) [0..<i]"

definition scan_inv :: "string list \<Rightarrow> nat \<Rightarrow> new_cmd_vars \<Rightarrow> bool" where
  "scan_inv seg i v =
    ((\<forall>k<i. \<not> bad_redirect seg k)
     \<and> last_index v \<le> i
     \<and> (last_index v = i \<longleftrightarrow> (i = 0 \<or> is_redirect (seg ! (i - 1))))
     \<and> last_symbol v = (case latest_symbol seg i of None \<Rightarrow> CHR 0x00 | Some s \<Rightarrow> hd s)
     \<and> v_argn v = (if \<exists>k<i. is_redirect (seg ! k)
                   then length (takeWhile (\<lambda>t. \<not> is_redirect t) seg) else length seg)
     \<and> in_idx v = idx_of ''<'' seg i
     \<and> out_idx v = idx_of ''>'' seg i)"

text \<open>
  A line is cut into segments at its pipe tokens: \<open>n\<close> pipes give \<open>n + 1\<close> segments,
  empty where a pipe is first, last or next to another pipe.  \<open>build\<close> is the outcome
  the parser is to reach on the segments, taken in order: the first empty segment is an
  error citing \<open>|\<close>, the first segment with a misplaced redirect symbol an error citing
  that symbol, and otherwise each segment gives its command.
\<close>

fun segments :: "string list \<Rightarrow> string list list" where
  "segments [] = [[]]"
| "segments (t # ts) =
    (if is_pipe t then [] # segments ts
     else (t # hd (segments ts)) # tl (segments ts))"

fun build :: "string list list \<Rightarrow> string + Cmd list" where
  "build [] = Inr []"
| "build (s # ss) =
    (if s = [] then Inl ''|''
     else (case first_bad s of
             Some j \<Rightarrow> Inl (s ! j)
           | None \<Rightarrow> (case build ss of Inl e \<Rightarrow> Inl e | Inr cs \<Rightarrow> Inr (built s # cs))))"

text \<open>
  What \<open>parse\<close> leaves behind when it starts writing at \<open>cmds[cmdn]\<close> with the
  segments \<open>segs\<close> still to come.
\<close>

definition parse_post :: "string list list \<Rightarrow> Cmd option list \<Rightarrow> nat \<Rightarrow> parse_result \<Rightarrow> bool" where
  "parse_post segs cmds cmdn pr =
    (length (cmds_out pr) = length cmds
     \<and> (\<forall>k<cmdn. cmds_out pr ! k = cmds ! k)
     \<and> (case build segs of
          Inl e \<Rightarrow> ret pr = 0 \<and> stderr_out pr = [PARSE_ERR e]
        | Inr cs \<Rightarrow> ret pr = 1 \<and> stderr_out pr = [] \<and> cmdn_out pr = cmdn + length cs
            \<and> (\<forall>k<length cs. cmds_out pr ! (cmdn + k) = Some (cs ! k))))"

text \<open>
  An input line of 35 words, each followed by a pipe token, 70 tokens in all, of which the
  tokenizer keeps the first 63: 32 words and the 31 pipes between them.
\<close>

definition long_line :: string where
  "long_line = ''a|a|a|a|a|a|a|a|a|a|a|a|a|a|a|a|a|a|a|a|a|a|a|a|a|a|a|a|a|a|a|a|a|a|a|''"

text \<open>
  A world for examples: not a terminal, every \<open>pipe\<close> and \<open>fork\<close> succeeds, every child
  exits with code 0, the directories \<open>/tmp\<close> and \<open>/root\<close> exist, and \<open>wait\<close> hands over
  the oldest child first.  \<open>demo_shell\<close> is \<open>main\<close>'s state before its first iteration
  on a given input.
\<close>

definition quiet_world :: world where
  "quiet_world =
    \<lparr>cwd = ''/'', HOME = Some ''/root'',
     fs_chdir = (\<lambda>d p. if p = ''/tmp'' \<or> p = ''/root'' then Inr p
                         else Inl ''No such file or directory''),
     isatty_stdin = False,
     pipe_result = (\<lambda>k. Inr (3 + 2 * int k, 4 + 2 * int k)), pipe_calls = 0,
     fork_result = (\<lambda>k. None), fork_calls = 0,
     child_exit = (\<lambda>p. Some 0), reap_choice = (\<lambda>ps. 0),
     children = [], spawned = [], reaped = [], closed = [], stdout = [], stderr = []\<rparr>"

definition demo_shell :: "string \<Rightarrow> world \<Rightarrow> shell" where
  "demo_shell inp w =
    \<lparr>sh_running = True, sh_status = 1, sh_input = inp, sh_cmds = replicate 32 None,
     sh_cmdn = 0, sh_world = w\<rparr>"

text \<open>
  The commands \<open>cd\<close>, \<open>cd ~\<close>, \<open>cd ~foo\<close>, \<open>cd a b\<close> and \<open>cd\<close> with one path, as
  \<open>new_cmd\<close> builds them.
\<close>

definition cd_cmd :: "string list \<Rightarrow> Cmd" where
  "cd_cmd ps = \<lparr>args = [CHR 0x0A, T_CD] # ps, argn = Suc (length ps), files_in = [],
                 files_out = []\<rparr>"

text \<open>
  \<open>grows w w'\<close>: from \<open>w\<close> to \<open>w'\<close> children were only added, by \<open>fork\<close>, and none was
  reaped; what the system decides about children is the same.
\<close>

definition grows :: "world \<Rightarrow> world \<Rightarrow> bool" where
  "grows w w' =
    (child_exit w' = child_exit w \<and> reap_choice w' = reap_choice w \<and> reaped w' = reaped w
     \<and> (\<exists>ps. spawned w' = spawned w @ ps \<and> children w' = children w @ map pid ps
           \<and> (\<forall>q\<in>set ps. 0 < pid q)))"

text \<open>
  The tests \<open>spawn\<close> makes on \<open>cmd->args[0]\<close>: the command is the built-in \<open>exit\<close>,
  or the built-in \<open>cd\<close>.
\<close>

definition is_exit :: "Cmd \<Rightarrow> bool" where
  "is_exit c =
    (case args c of [] \<Rightarrow> False
     | a0 # _ \<Rightarrow> char_at a0 0 = CHR 0x0A \<and> char_at a0 1 = T_EXIT)"

definition is_cd :: "Cmd \<Rightarrow> bool" where
  "is_cd c =
    (case args c of [] \<Rightarrow> False
     | a0 # _ \<Rightarrow> char_at a0 0 = CHR 0x0A \<and> char_at a0 1 = T_CD)"

text \<open>
  A command without redirections, and a world like \<open>quiet_world\<close> in which the first child
  forked exits with code 1 and all others with code 0.
\<close>

definition plain_cmd :: "string list \<Rightarrow> Cmd" where
  "plain_cmd ws = \<lparr>args = ws, argn = length ws, files_in = [], files_out = []\<rparr>"

definition first_fails_world :: world where
  "first_fails_world = quiet_world\<lparr>child_exit := (\<lambda>p. Some (if p = 1 then 1 else 0))\<rparr>"


definition env_eq :: "world \<Rightarrow> world \<Rightarrow> bool" where
  "env_eq w1 w2 = (cwd w1 = cwd w2 \<and> HOME w1 = HOME w2 \<and> fs_chdir w1 = fs_chdir w2)"

section \<open>Properties of the command builder\<close>

declare new_cmd_scan.simps [simp del]

lemma is_redirect_iff: "is_redirect s \<longleftrightarrow> s = ''<'' \<or> s = ''>''"
  by (auto simp: is_redirect_def split: list.splits)

lemma latest_symbol_0: "latest_symbol seg 0 = None"
  by (simp add: latest_symbol_def)

lemma latest_symbol_Suc:
  "i < length seg \<Longrightarrow>
   latest_symbol seg (Suc i) = (if is_redirect (seg ! i) then Some (seg ! i) else latest_symbol seg i)"
  by (simp add: latest_symbol_def take_Suc_conv_app_nth)

lemma latest_symbol_redirect: "latest_symbol seg i = Some s \<Longrightarrow> is_redirect s"
proof -
  assume h: "latest_symbol seg i = Some s"
  then have ne: "filter is_redirect (take i seg) \<noteq> []"
    and s: "s = last (filter is_redirect (take i seg))"
    by (auto simp: latest_symbol_def split: if_splits)
  from ne have "last (filter is_redirect (take i seg)) \<in> set (filter is_redirect (take i seg))"
    by (rule last_in_set)
  with s show ?thesis by simp
qed

lemma latest_symbol_None: "latest_symbol seg i = None \<longleftrightarrow> (\<forall>k<i. k < length seg \<longrightarrow> \<not> is_redirect (seg ! k))"
  by (auto simp: latest_symbol_def filter_empty_conv all_set_conv_all_nth)

lemma idx_of_Suc:
  "idx_of d seg (Suc i) =
     idx_of d seg i @ (if \<not> is_redirect (seg ! i) \<and> latest_symbol seg i = Some d then [i] else [])"
  by (simp add: idx_of_def)

lemma takeWhile_first:
  "i < length seg \<Longrightarrow> is_redirect (seg ! i) \<Longrightarrow> \<forall>k<i. \<not> is_redirect (seg ! k) \<Longrightarrow>
   length (takeWhile (\<lambda>t. \<not> is_redirect t) seg) = i"
proof -
  assume h: "i < length seg" "is_redirect (seg ! i)" "\<forall>k<i. \<not> is_redirect (seg ! k)"
  then have "takeWhile (\<lambda>t. \<not> is_redirect t) seg = take i seg"
    by (intro takeWhile_eq_take_P_nth) auto
  with h(1) show ?thesis by simp
qed

lemma takeWhile_some:
  "\<exists>k<length seg. is_redirect (seg ! k) \<Longrightarrow> length (takeWhile (\<lambda>t. \<not> is_redirect t) seg) < length seg"
proof (rule ccontr)
  assume ex: "\<exists>k<length seg. is_redirect (seg ! k)"
    and "\<not> length (takeWhile (\<lambda>t. \<not> is_redirect t) seg) < length seg"
  then have "length (takeWhile (\<lambda>t. \<not> is_redirect t) seg) = length seg"
    using length_takeWhile_le[of "\<lambda>t. \<not> is_redirect t" seg] by simp
  moreover have "takeWhile (\<lambda>t. \<not> is_redirect t) seg
      = take (length (takeWhile (\<lambda>t. \<not> is_redirect t) seg)) seg"
    by (rule takeWhile_eq_take)
  ultimately have "takeWhile (\<lambda>t. \<not> is_redirect t) seg = seg"
    by simp
  then have "\<forall>x\<in>set seg. \<not> is_redirect x"
    by (simp add: takeWhile_eq_all_conv)
  with ex show False
    by (meson nth_mem)
qed

lemma scan_inv_init:
  "scan_inv seg 0 \<lparr>v_argn = length seg, last_index = 0, last_symbol = CHR 0x00, in_idx = [], out_idx = []\<rparr>"
  by (simp add: scan_inv_def latest_symbol_0 idx_of_def)

lemma not_bad_redirect:
  "\<not> bad_redirect seg i \<Longrightarrow> is_redirect (seg ! i) \<Longrightarrow>
   i \<noteq> 0 \<and> Suc i \<noteq> length seg \<and> \<not> is_redirect (seg ! (i - 1))"
  by (simp add: bad_redirect_def)

lemma scan_inv_step_symbol:
  assumes inv: "scan_inv seg i v" and i: "i < length seg" and r: "is_redirect (seg ! i)"
    and nb: "\<not> bad_redirect seg i"
  shows "scan_inv seg (Suc i)
           (v\<lparr>v_argn := (if v_argn v = length seg then i else v_argn v),
              last_symbol := hd (seg ! i), last_index := i + 1\<rparr>)"
proof -
  have nobad: "\<forall>k<Suc i. \<not> bad_redirect seg k"
    using inv nb by (auto simp: scan_inv_def less_Suc_eq)
  have argn: "(if v_argn v = length seg then i else v_argn v)
      = length (takeWhile (\<lambda>t. \<not> is_redirect t) seg)"
  proof (cases "\<exists>k<i. is_redirect (seg ! k)")
    case True
    then have "\<exists>k<length seg. is_redirect (seg ! k)"
      using i by (meson less_trans)
    then have "length (takeWhile (\<lambda>t. \<not> is_redirect t) seg) < length seg"
      by (rule takeWhile_some)
    with True inv show ?thesis
      by (simp add: scan_inv_def)
  next
    case False
    then have "length (takeWhile (\<lambda>t. \<not> is_redirect t) seg) = i"
      using i r by (intro takeWhile_first) auto
    with False inv show ?thesis
      by (simp add: scan_inv_def)
  qed
  have ex: "\<exists>k<Suc i. is_redirect (seg ! k)"
    using r by blast
  show ?thesis
    unfolding scan_inv_def
    using nobad argn ex inv i r
    by (simp add: scan_inv_def latest_symbol_Suc idx_of_Suc)
qed

lemma scan_inv_step_word:
  assumes inv: "scan_inv seg i v" and i: "i < length seg" and r: "\<not> is_redirect (seg ! i)"
  shows "scan_inv seg (Suc i)
           (if last_symbol v \<noteq> CHR 0x00 then
              (if last_symbol v = CHR ''<'' then v\<lparr>in_idx := in_idx v @ [i]\<rparr>
               else v\<lparr>out_idx := out_idx v @ [i]\<rparr>)
            else v)"
proof -
  have nobad: "\<forall>k<Suc i. \<not> bad_redirect seg k"
    using inv r by (auto simp: scan_inv_def less_Suc_eq bad_redirect_def)
  have ex: "(\<exists>k<Suc i. is_redirect (seg ! k)) \<longleftrightarrow> (\<exists>k<i. is_redirect (seg ! k))"
    using r by (auto simp: less_Suc_eq)
  have li: "last_index v \<noteq> Suc i"
    using inv by (simp add: scan_inv_def)
  show ?thesis
  proof (cases "latest_symbol seg i")
    case None
    with inv have "last_symbol v = CHR 0x00"
      by (simp add: scan_inv_def)
    with None nobad ex li inv i r show ?thesis
      by (simp add: scan_inv_def latest_symbol_Suc idx_of_Suc)
  next
    case (Some s)
    then have "s = ''<'' \<or> s = ''>''"
      using latest_symbol_redirect is_redirect_iff by blast
    with Some nobad ex li inv i r show ?thesis
      by (auto simp: scan_inv_def latest_symbol_Suc idx_of_Suc)
  qed
qed


lemma first_bad_Some:
  "i < length seg \<Longrightarrow> bad_redirect seg i \<Longrightarrow> \<forall>k<i. \<not> bad_redirect seg k \<Longrightarrow>
   first_bad seg = Some i"
  unfolding first_bad_def find_Some_iff
  by (rule exI[of _ i]) simp

lemma first_bad_None: "first_bad seg = None \<longleftrightarrow> (\<forall>k<length seg. \<not> bad_redirect seg k)"
  by (auto simp: first_bad_def find_None_iff)

lemma scan_inv_nobad: "scan_inv seg i v \<Longrightarrow> \<forall>k<i. \<not> bad_redirect seg k"
  unfolding scan_inv_def by (elim conjE)

lemma scan_inv_last_index:
  "scan_inv seg i v \<Longrightarrow> last_index v = i \<longleftrightarrow> (i = 0 \<or> is_redirect (seg ! (i - 1)))"
  unfolding scan_inv_def by (elim conjE)

lemma scan_result:
  "n \<le> length argv \<Longrightarrow> i \<le> n \<Longrightarrow> scan_inv (take n argv) i v \<Longrightarrow>
   (case new_cmd_scan argv n i v of
      Inl e \<Rightarrow> \<exists>j<n. first_bad (take n argv) = Some j \<and> e = argv ! j
    | Inr v' \<Rightarrow> first_bad (take n argv) = None \<and> scan_inv (take n argv) n v')"
proof (induction argv n i v rule: new_cmd_scan.induct)
  case (1 argv n i v)
  let ?seg = "take n argv"
  have len: "length ?seg = n"
    using "1.prems" by simp
  show ?case
  proof (cases "i < n")
    case False
    with "1.prems" have "i = n" by simp
    moreover have "\<forall>k<n. \<not> bad_redirect ?seg k"
      using "1.prems"(3) \<open>i = n\<close> scan_inv_nobad by blast
    then have "first_bad ?seg = None"
      unfolding first_bad_None len .
    ultimately show ?thesis
      using "1.prems"(3) by (subst new_cmd_scan.simps) simp
  next
    case lt: True
    then have nth: "?seg ! i = argv ! i"
      by simp
    from lt len have lt': "i < length ?seg"
      by simp
    have bd: "bad_redirect ?seg i \<longleftrightarrow>
        is_redirect (?seg ! i) \<and> (i = 0 \<or> Suc i = n \<or> is_redirect (?seg ! (i - 1)))"
      unfolding bad_redirect_def len by (rule refl)
    have li: "last_index v = i \<longleftrightarrow> (i = 0 \<or> is_redirect (?seg ! (i - 1)))"
      using "1.prems"(3) by (rule scan_inv_last_index)
    show ?thesis
    proof (cases "is_redirect (argv ! i)")
      case red: True
      show ?thesis
      proof (cases "int i = int n - 1 \<or> int i - int (last_index v) = 0")
        case True
        then have "Suc i = n \<or> last_index v = i"
          by auto
        moreover have "is_redirect (?seg ! i)"
          using red nth by simp
        ultimately have "bad_redirect ?seg i"
          using bd li by auto
        moreover have "\<forall>k<i. \<not> bad_redirect ?seg k"
          using "1.prems"(3) by (rule scan_inv_nobad)
        ultimately have "first_bad ?seg = Some i"
          using lt len by (intro first_bad_Some) auto
        with lt red True show ?thesis
          by (subst new_cmd_scan.simps) auto
      next
        case False
        then have "Suc i \<noteq> n" and "last_index v \<noteq> i"
          by auto
        then have nb: "\<not> bad_redirect ?seg i"
          using bd li by auto
        have red': "is_redirect (?seg ! i)"
          using red nth by simp
        have "scan_inv ?seg (Suc i)
           (v\<lparr>v_argn := (if v_argn v = length ?seg then i else v_argn v),
              last_symbol := hd (?seg ! i), last_index := i + 1\<rparr>)"
          using "1.prems"(3) lt' red' nb by (rule scan_inv_step_symbol)
        then have inv': "scan_inv ?seg (i + 1)
           (v\<lparr>v_argn := (if v_argn v = n then i else v_argn v),
              last_symbol := hd (argv ! i), last_index := i + 1\<rparr>)"
          unfolding len nth by simp
        have "case new_cmd_scan argv n (i + 1)
                (v\<lparr>v_argn := (if v_argn v = n then i else v_argn v),
                   last_symbol := hd (argv ! i), last_index := i + 1\<rparr>) of
              Inl e \<Rightarrow> \<exists>j<n. first_bad ?seg = Some j \<and> e = argv ! j
            | Inr v' \<Rightarrow> first_bad ?seg = None \<and> scan_inv ?seg n v'"
          using lt red False "1.prems"(1) inv' by (intro "1.IH"(1)) simp_all
        with lt red False show ?thesis
          by (subst new_cmd_scan.simps) simp
      qed
    next
      case nred: False
      have inv': "scan_inv ?seg (Suc i)
           (if last_symbol v \<noteq> CHR 0x00 then
              (if last_symbol v = CHR ''<'' then v\<lparr>in_idx := in_idx v @ [i]\<rparr>
               else v\<lparr>out_idx := out_idx v @ [i]\<rparr>)
            else v)"
        using "1.prems"(3) lt' nred nth by (intro scan_inv_step_word) simp_all
      show ?thesis
      proof (cases "last_symbol v \<noteq> CHR 0x00")
        case ns: True
        show ?thesis
        proof (cases "last_symbol v = CHR ''<''")
          case True
          with inv' ns lt nred "1.prems"(1)
          have "case new_cmd_scan argv n (i + 1) (v\<lparr>in_idx := in_idx v @ [i]\<rparr>) of
              Inl e \<Rightarrow> \<exists>j<n. first_bad ?seg = Some j \<and> e = argv ! j
            | Inr v' \<Rightarrow> first_bad ?seg = None \<and> scan_inv ?seg n v'"
            by (intro "1.IH"(2)) simp_all
          with lt nred ns True show ?thesis
            by (subst new_cmd_scan.simps) simp
        next
          case False
          with inv' ns lt nred "1.prems"(1)
          have "case new_cmd_scan argv n (i + 1) (v\<lparr>out_idx := out_idx v @ [i]\<rparr>) of
              Inl e \<Rightarrow> \<exists>j<n. first_bad ?seg = Some j \<and> e = argv ! j
            | Inr v' \<Rightarrow> first_bad ?seg = None \<and> scan_inv ?seg n v'"
            by (intro "1.IH"(3)) simp_all
          with lt nred ns False show ?thesis
            by (subst new_cmd_scan.simps) simp
        qed
      next
        case False
        with inv' lt nred "1.prems"(1)
        have "case new_cmd_scan argv n (i + 1) v of
              Inl e \<Rightarrow> \<exists>j<n. first_bad ?seg = Some j \<and> e = argv ! j
            | Inr v' \<Rightarrow> first_bad ?seg = None \<and> scan_inv ?seg n v'"
          by (intro "1.IH"(4)) simp_all
        with lt nred False show ?thesis
          by (subst new_cmd_scan.simps) simp
      qed
    qed
  qed
qed


lemma argn_final:
  "(if \<exists>k<length seg. is_redirect (seg ! k)
    then length (takeWhile (\<lambda>t. \<not> is_redirect t) seg) else length seg)
   = length (takeWhile (\<lambda>t. \<not> is_redirect t) seg)"
proof (cases "\<exists>k<length seg. is_redirect (seg ! k)")
  case True
  then show ?thesis by simp
next
  case False
  then have "takeWhile (\<lambda>t. \<not> is_redirect t) seg = seg"
    by (auto simp: takeWhile_eq_all_conv in_set_conv_nth)
  then have "length (takeWhile (\<lambda>t. \<not> is_redirect t) seg) = length seg"
    by (rule arg_cong)
  with False show ?thesis by simp
qed

lemma scan_inv_final_argn:
  "scan_inv seg (length seg) v \<Longrightarrow> v_argn v = length (takeWhile (\<lambda>t. \<not> is_redirect t) seg)"
  using argn_final[of seg] by (simp add: scan_inv_def)

lemma map_idx_of:
  "n \<le> length argv \<Longrightarrow>
   map (\<lambda>k. argv ! k) (idx_of d (take n argv) n) = files_of d (take n argv)"
  by (simp add: files_of_def idx_of_def)

lemma new_cmd_char:
  assumes n: "n \<le> length argv"
  shows "new_cmd argv n =
    (case first_bad (take n argv) of
       Some j \<Rightarrow> Inl (argv ! j)
     | None \<Rightarrow> Inr (built (take n argv)))"
proof -
  let ?seg = "take n argv"
  let ?v0 = "\<lparr>v_argn = n, last_index = 0, last_symbol = CHR 0x00, in_idx = [], out_idx = []\<rparr>"
  have len: "length ?seg = n"
    using n by simp
  have "scan_inv ?seg 0 ?v0"
    using scan_inv_init[of ?seg] len by simp
  with n have res: "case new_cmd_scan argv n 0 ?v0 of
      Inl e \<Rightarrow> \<exists>j<n. first_bad ?seg = Some j \<and> e = argv ! j
    | Inr v' \<Rightarrow> first_bad ?seg = None \<and> scan_inv ?seg n v'"
    by (intro scan_result) auto
  show ?thesis
  proof (cases "new_cmd_scan argv n 0 ?v0")
    case (Inl e)
    with res show ?thesis
      by (auto simp: new_cmd_def)
  next
    case (Inr v')
    with res have fb: "first_bad ?seg = None" and inv: "scan_inv ?seg n v'"
      by auto
    have "scan_inv ?seg (length ?seg) v'"
      using inv len by simp
    then have a: "v_argn v' = length (takeWhile (\<lambda>t. \<not> is_redirect t) ?seg)"
      by (rule scan_inv_final_argn)
    have le: "length (takeWhile (\<lambda>t. \<not> is_redirect t) ?seg) \<le> n"
      using length_takeWhile_le[of _ ?seg] len by simp
    have "takeWhile (\<lambda>t. \<not> is_redirect t) ?seg
        = take (length (takeWhile (\<lambda>t. \<not> is_redirect t) ?seg)) ?seg"
      by (rule takeWhile_eq_take)
    also have "\<dots> = take (length (takeWhile (\<lambda>t. \<not> is_redirect t) ?seg)) argv"
      using le by (simp add: min_def)
    finally have t: "take (v_argn v') argv = takeWhile (\<lambda>t. \<not> is_redirect t) ?seg"
      using a by simp
    have fi: "map (\<lambda>k. argv ! k) (in_idx v') = files_of ''<'' ?seg"
      using inv map_idx_of[OF n] by (simp add: scan_inv_def)
    have fo: "map (\<lambda>k. argv ! k) (out_idx v') = files_of ''>'' ?seg"
      using inv map_idx_of[OF n] by (simp add: scan_inv_def)
    from Inr fb t a fi fo show ?thesis
      by (simp add: new_cmd_def built_def)
  qed
qed

declare parse_loop.simps [simp del]

lemmas lex_eval = getline_def WORD_def in_range_def SPECIAL_def blank_def add_arg_def
  ADD_TOK_def NUMARGS_def T_EXIT_def T_CD_def

lemmas parse_eval = parse_def parse_loop.simps new_cmd_def new_cmd_scan.simps is_pipe_def
  is_redirect_def

lemma getline_ex1: "getline ''cmd > out.txt < in.txt'' = ([''cmd'', ''>'', ''out.txt'', ''<'', ''in.txt''], - 1, [])"
  by (simp add: lex_eval)

lemma getline_ex2: "getline ''cmd < in.txt > out.txt'' = ([''cmd'', ''<'', ''in.txt'', ''>'', ''out.txt''], - 1, [])"
  by (simp add: lex_eval)

lemma parse_ex1:
  "length cmds = 32 \<Longrightarrow>
   parse [''cmd'', ''>'', ''out.txt'', ''<'', ''in.txt''] cmds =
     Inr \<lparr>ret = 1,
          cmds_out = cmds[0 := Some \<lparr>args = [''cmd''], argn = 1, files_in = [''in.txt''],
                                    files_out = [''out.txt'']\<rparr>],
          cmdn_out = 1, stderr_out = []\<rparr>"
  by (simp add: parse_eval)

lemma parse_ex2:
  "length cmds = 32 \<Longrightarrow>
   parse [''cmd'', ''<'', ''in.txt'', ''>'', ''out.txt''] cmds =
     Inr \<lparr>ret = 1,
          cmds_out = cmds[0 := Some \<lparr>args = [''cmd''], argn = 1, files_in = [''in.txt''],
                                    files_out = [''out.txt'']\<rparr>],
          cmdn_out = 1, stderr_out = []\<rparr>"
  by (simp add: parse_eval)

lemma files_ex: "files_of ''<'' [''cmd'', ''>'', ''out.txt'', ''<'', ''in.txt''] = [''in.txt'']"
  by (simp add: files_of_def latest_symbol_def is_redirect_def upt_conv_Cons)

lemma getline_ex3: "getline ''< in.txt cmd'' = ([''<'', ''in.txt'', ''cmd''], - 1, [])"
  by (simp add: lex_eval)

lemma parse_ex3:
  "length cmds = 32 \<Longrightarrow>
   parse [''<'', ''in.txt'', ''cmd''] cmds =
     Inr \<lparr>ret = 0, cmds_out = cmds[0 := None], cmdn_out = 0, stderr_out = [PARSE_ERR ''<'']\<rparr>"
  by (simp add: parse_eval)

text \<open>
  C3.  A segment is valid when none of its redirect symbols is its first token, its final
  token, or right behind another redirect symbol.  From every valid segment \<open>new_cmd\<close>
  builds a command: the argument list is the segment up to the first redirect symbol (the
  whole segment without one), and the input and output filename lists hold, in order, the
  tokens that are not redirect symbols and whose latest redirect symbol is \<open><\<close> and \<open>>\<close>.
  The line \<open>cmd > out.txt < in.txt\<close> gives one command with arguments \<open>cmd\<close>, output file
  \<open>out.txt\<close> and input file \<open>in.txt\<close>, and so does the line with the two redirections
  swapped.
\<close>

theorem new_cmd_builds:
  assumes n: "n \<le> length argv"
    and valid: "\<forall>i<n. is_redirect (argv ! i) \<longrightarrow>
                  0 < i \<and> Suc i < n \<and> \<not> is_redirect (argv ! (i - 1))"
    and len: "length cmds = 32"
  shows "new_cmd argv n =
      Inr \<lparr>args = takeWhile (\<lambda>t. \<not> is_redirect t) (take n argv),
           argn = length (takeWhile (\<lambda>t. \<not> is_redirect t) (take n argv)),
           files_in = files_of ''<'' (take n argv),
           files_out = files_of ''>'' (take n argv)\<rparr>
    \<and> parse (fst (getline ''cmd > out.txt < in.txt'')) cmds =
        Inr \<lparr>ret = 1,
             cmds_out = cmds[0 := Some \<lparr>args = [''cmd''], argn = 1, files_in = [''in.txt''],
                                       files_out = [''out.txt'']\<rparr>],
             cmdn_out = 1, stderr_out = []\<rparr>
    \<and> parse (fst (getline ''cmd < in.txt > out.txt'')) cmds =
        Inr \<lparr>ret = 1,
             cmds_out = cmds[0 := Some \<lparr>args = [''cmd''], argn = 1, files_in = [''in.txt''],
                                       files_out = [''out.txt'']\<rparr>],
             cmdn_out = 1, stderr_out = []\<rparr>"
proof -
  have l: "length (take n argv) = n"
    using n by simp
  have "\<not> bad_redirect (take n argv) k" if k: "k < n" for k
  proof
    assume b: "bad_redirect (take n argv) k"
    then have r: "is_redirect (argv ! k)"
      using k by (simp add: bad_redirect_def)
    with valid k have v: "0 < k" "Suc k < n" "\<not> is_redirect (argv ! (k - 1))"
      by simp_all
    have "k - 1 < n"
      using k by simp
    then have "take n argv ! (k - 1) = argv ! (k - 1)"
      by simp
    with b v l show False
      by (simp add: bad_redirect_def)
  qed
  then have "first_bad (take n argv) = None"
    using l by (simp add: first_bad_None)
  then have "new_cmd argv n = Inr (built (take n argv))"
    using new_cmd_char[OF n] by simp
  then show ?thesis
    using parse_ex1[OF len] parse_ex2[OF len] by (simp add: built_def getline_ex1 getline_ex2)
qed

theorem new_cmd_builds_witness:
  "5 \<le> length [''cmd'', ''>'', ''out.txt'', ''<'', ''in.txt'']
   \<and> map is_redirect [''cmd'', ''>'', ''out.txt'', ''<'', ''in.txt'']
       = [False, True, False, True, False]
   \<and> length (replicate 32 (None :: Cmd option)) = 32
   \<and> takeWhile (\<lambda>t. \<not> is_redirect t) (take 5 [''cmd'', ''>'', ''out.txt'', ''<'', ''in.txt''])
       = [''cmd'']
   \<and> files_of ''<'' (take 5 [''cmd'', ''>'', ''out.txt'', ''<'', ''in.txt'']) = [''in.txt'']
   \<and> files_of ''>'' (take 5 [''cmd'', ''>'', ''out.txt'', ''<'', ''in.txt'']) = [''out.txt'']
   \<and> new_cmd [''cmd'', ''>'', ''out.txt'', ''<'', ''in.txt''] 5 =
       Inr \<lparr>args = [''cmd''], argn = 1, files_in = [''in.txt''], files_out = [''out.txt'']\<rparr>"
proof -
  let ?xs = "[''cmd'', ''>'', ''out.txt'', ''<'', ''in.txt'']"
  have a: "5 \<le> length ?xs"
    by simp
  have m: "map is_redirect ?xs = [False, True, False, True, False]"
    by (simp add: is_redirect_def)
  have b: "\<forall>i<5. is_redirect (?xs ! i) \<longrightarrow>
                  0 < i \<and> Suc i < 5 \<and> \<not> is_redirect (?xs ! (i - 1))"
  proof (intro allI impI)
    fix i :: nat assume i: "i < 5" and r: "is_redirect (?xs ! i)"
    from i consider "i = 0" | "i = 1" | "i = 2" | "i = 3" | "i = 4"
      by arith
    then show "0 < i \<and> Suc i < 5 \<and> \<not> is_redirect (?xs ! (i - 1))"
      using r by cases (simp_all add: is_redirect_def)
  qed
  have c: "length (replicate 32 (None :: Cmd option)) = 32"
    by simp
  have t: "takeWhile (\<lambda>t. \<not> is_redirect t) (take 5 ?xs) = [''cmd'']"
    by (simp add: is_redirect_def)
  have fi: "files_of ''<'' (take 5 ?xs) = [''in.txt'']"
    by (simp add: files_of_def latest_symbol_def is_redirect_def upt_conv_Cons)
  have fo: "files_of ''>'' (take 5 ?xs) = [''out.txt'']"
    by (simp add: files_of_def latest_symbol_def is_redirect_def upt_conv_Cons)
  have "new_cmd ?xs 5 =
       Inr \<lparr>args = [''cmd''], argn = 1, files_in = [''in.txt''], files_out = [''out.txt'']\<rparr>"
    using new_cmd_builds[OF a b c] t fi fo by simp
  with a m c t fi fo show ?thesis
    by simp
qed

text \<open>
  C10.  A segment whose first token is a redirect symbol is refused by \<open>new_cmd\<close>, which
  cites that token.  The line \<open>< in.txt cmd\<close>, where the symbol is neither the final token
  nor behind another redirect symbol, is a syntax error citing \<open><\<close>.
\<close>

theorem leading_redirect_rejected:
  assumes n: "n \<le> length argv" and pos: "0 < n" and r: "is_redirect (argv ! 0)"
    and len: "length cmds = 32"
  shows "new_cmd argv n = Inl (argv ! 0)
    \<and> parse (fst (getline ''< in.txt cmd'')) cmds =
        Inr \<lparr>ret = 0, cmds_out = cmds[0 := None], cmdn_out = 0,
             stderr_out = [PARSE_ERR ''<'']\<rparr>"
proof -
  have "bad_redirect (take n argv) 0"
    using pos r by (simp add: bad_redirect_def)
  moreover have "0 < length (take n argv)"
    using n pos by simp
  ultimately have "first_bad (take n argv) = Some 0"
    by (intro first_bad_Some) simp_all
  then have "new_cmd argv n = Inl (argv ! 0)"
    using new_cmd_char[OF n] by simp
  then show ?thesis
    using parse_ex3[OF len] by (simp add: getline_ex3)
qed

theorem leading_redirect_rejected_witness:
  "3 \<le> length [''<'', ''in.txt'', ''cmd''] \<and> (0::nat) < 3
   \<and> is_redirect ([''<'', ''in.txt'', ''cmd''] ! 0)
   \<and> length (replicate 32 (None :: Cmd option)) = 32
   \<and> new_cmd [''<'', ''in.txt'', ''cmd''] 3 = Inl ''<''"
proof -
  have a: "3 \<le> length [''<'', ''in.txt'', ''cmd'']"
    by simp
  have b: "(0::nat) < 3"
    by simp
  have c: "is_redirect ([''<'', ''in.txt'', ''cmd''] ! 0)"
    by (simp add: is_redirect_def)
  have d: "length (replicate 32 (None :: Cmd option)) = 32"
    by simp
  show ?thesis
    using leading_redirect_rejected[OF a b c d] a c by simp
qed

lemma segments_ne: "segments ts \<noteq> []"
  by (induction ts) auto

lemma segments_no_pipe: "\<forall>t\<in>set ts. \<not> is_pipe t \<Longrightarrow> segments ts = [ts]"
  by (induction ts) auto

lemma segments_append_pipe:
  "is_pipe p \<Longrightarrow> \<forall>t\<in>set xs. \<not> is_pipe t \<Longrightarrow> segments (xs @ p # ys) = xs # segments ys"
  by (induction xs) auto

lemma segments_append:
  "is_pipe p \<Longrightarrow> segments (xs @ p # ys) = segments xs @ segments ys"
proof (induction xs)
  case Nil
  then show ?case by simp
next
  case (Cons x xs)
  then show ?case
    using segments_ne[of xs] by (cases "segments xs") auto
qed

lemma segments_at_pipe:
  assumes "lc \<le> i" "i < length argv" "is_pipe (argv ! i)"
    and "\<forall>k. lc \<le> k \<and> k < i \<longrightarrow> \<not> is_pipe (argv ! k)"
  shows "segments (drop lc argv) = take (i - lc) (drop lc argv) # segments (drop (Suc i) argv)"
proof -
  let ?d = "drop lc argv"
  have il: "i - lc < length ?d"
    using assms by simp
  have split: "?d = take (i - lc) ?d @ ?d ! (i - lc) # drop (Suc (i - lc)) ?d"
    using il by (rule id_take_nth_drop)
  have p: "is_pipe (?d ! (i - lc))"
    using assms by simp
  have np: "\<forall>t\<in>set (take (i - lc) ?d). \<not> is_pipe t"
  proof
    fix t assume "t \<in> set (take (i - lc) ?d)"
    then obtain k where k: "k < i - lc" and t: "t = ?d ! k"
      using il by (auto simp: in_set_conv_nth)
    from k assms have "\<not> is_pipe (argv ! (lc + k))"
      by simp
    with t k assms show "\<not> is_pipe t"
      by simp
  qed
  have d: "drop (Suc (i - lc)) ?d = drop (Suc i) argv"
    using assms by simp
  have "segments ?d = segments (take (i - lc) ?d @ ?d ! (i - lc) # drop (Suc (i - lc)) ?d)"
    using split by simp
  also have "\<dots> = take (i - lc) ?d # segments (drop (Suc (i - lc)) ?d)"
    using p np by (rule segments_append_pipe)
  finally show ?thesis
    using d by simp
qed

lemma segments_at_end:
  assumes "lc \<le> length argv"
    and "\<forall>k. lc \<le> k \<and> k < length argv \<longrightarrow> \<not> is_pipe (argv ! k)"
  shows "segments (drop lc argv) = [drop lc argv]"
proof (rule segments_no_pipe, rule ballI)
  fix t assume "t \<in> set (drop lc argv)"
  then obtain k where k: "k < length argv - lc" and t: "t = drop lc argv ! k"
    by (auto simp: in_set_conv_nth)
  from k assms have "\<not> is_pipe (argv ! (lc + k))"
    by simp
  with t k assms show "\<not> is_pipe t"
    by simp
qed

lemma parse_post_cons:
  assumes ne: "s \<noteq> []" and fb: "first_bad s = None" and c: "cmdn < length cmds"
    and post: "parse_post rest (cmds[cmdn := Some (built s)]) (Suc cmdn) pr"
  shows "parse_post (s # rest) cmds cmdn pr"
proof -
  from post have len: "length (cmds_out pr) = length cmds"
    and old: "\<forall>k<Suc cmdn. cmds_out pr ! k = (cmds[cmdn := Some (built s)]) ! k"
    by (simp_all add: parse_post_def)
  from old c have at: "cmds_out pr ! cmdn = Some (built s)"
    by simp
  from old have keep: "\<forall>k<cmdn. cmds_out pr ! k = cmds ! k"
    by simp
  show ?thesis
  proof (cases "build rest")
    case (Inl e)
    with post ne fb len keep show ?thesis
      by (simp add: parse_post_def)
  next
    case (Inr cs)
    with post have n: "cmdn_out pr = Suc cmdn + length cs"
      and r: "ret pr = 1" "stderr_out pr = []"
      and new: "\<forall>k<length cs. cmds_out pr ! (Suc cmdn + k) = Some (cs ! k)"
      by (simp_all add: parse_post_def)
    have "\<forall>k<length (built s # cs). cmds_out pr ! (cmdn + k) = Some ((built s # cs) ! k)"
    proof (intro allI impI)
      fix k assume "k < length (built s # cs)"
      then show "cmds_out pr ! (cmdn + k) = Some ((built s # cs) ! k)"
        using at new by (cases k) simp_all
    qed
    with Inr ne fb len keep n r show ?thesis
      by (simp add: parse_post_def)
  qed
qed

lemma first_bad_lt: "first_bad s = Some j \<Longrightarrow> j < length s"
  by (auto simp: first_bad_def find_Some_iff)

lemma new_cmd_segment:
  assumes "n \<le> length argv"
  shows "new_cmd argv n = (case first_bad (take n argv) of
       Some j \<Rightarrow> Inl (take n argv ! j) | None \<Rightarrow> Inr (built (take n argv)))"
proof (cases "first_bad (take n argv)")
  case None
  then show ?thesis using new_cmd_char[OF assms] by simp
next
  case (Some j)
  then have "j < n"
    using first_bad_lt[of "take n argv" j] by simp
  with Some show ?thesis using new_cmd_char[OF assms] by simp
qed

lemma parse_loop_char:
  "lc \<le> i \<Longrightarrow> i \<le> length argv \<Longrightarrow> \<forall>k. lc \<le> k \<and> k < i \<longrightarrow> \<not> is_pipe (argv ! k) \<Longrightarrow>
   length argv \<le> 127 \<Longrightarrow> length argv < 2 * length cmds \<Longrightarrow> 2 * cmdn \<le> lc \<Longrightarrow>
   \<exists>pr. parse_loop argv i lc cmds cmdn = Inr pr
        \<and> parse_post (segments (drop lc argv)) cmds cmdn pr
        \<and> 2 * cmdn_out pr \<le> length argv + 1"
proof (induction argv i lc cmds cmdn rule: parse_loop.induct)
  case (1 argv i lc cmds cmdn)
  note lci = "1.prems"(1) and ile = "1.prems"(2) and nopipe = "1.prems"(3)
    and l127 = "1.prems"(4) and lcmds = "1.prems"(5) and cl = "1.prems"(6)
  have small: "\<not> 127 < i - lc"
    using ile l127 by simp
  show ?case
  proof (cases "i < length argv")
    case lt: True
    show ?thesis
    proof (cases "is_pipe (argv ! i)")
      case pipe: True
      let ?s = "take (i - lc) (drop lc argv)"
      have segs: "segments (drop lc argv) = ?s # segments (drop (Suc i) argv)"
        using lci lt pipe nopipe by (rule segments_at_pipe)
      show ?thesis
      proof (cases "i - lc = 0")
        case True
        have "parse_loop argv i lc cmds cmdn =
            Inr \<lparr>ret = 0, cmds_out = cmds, cmdn_out = cmdn, stderr_out = [PARSE_ERR ''|'']\<rparr>"
          using lt pipe small True by (subst parse_loop.simps) simp
        moreover have "parse_post (segments (drop lc argv)) cmds cmdn
            \<lparr>ret = 0, cmds_out = cmds, cmdn_out = cmdn, stderr_out = [PARSE_ERR ''|'']\<rparr>"
          using segs True by (simp add: parse_post_def)
        moreover have "2 * cmdn \<le> length argv + 1"
          using cl lci ile by simp
        ultimately show ?thesis
          by simp
      next
        case False
        have c: "cmdn < length cmds"
          using cl lci lt lcmds by simp
        have ne: "?s \<noteq> []"
          using False lt lci by simp
        have nc: "new_cmd (drop lc argv) (i - lc) =
            (case first_bad ?s of Some j \<Rightarrow> Inl (?s ! j) | None \<Rightarrow> Inr (built ?s))"
          using lt by (intro new_cmd_segment) simp
        show ?thesis
        proof (cases "first_bad ?s")
          case (Some j)
          have "parse_loop argv i lc cmds cmdn =
              Inr \<lparr>ret = 0, cmds_out = cmds[cmdn := None], cmdn_out = cmdn,
                   stderr_out = [PARSE_ERR (?s ! j)]\<rparr>"
            using lt pipe small False c nc Some by (subst parse_loop.simps) simp
          moreover have "parse_post (segments (drop lc argv)) cmds cmdn
              \<lparr>ret = 0, cmds_out = cmds[cmdn := None], cmdn_out = cmdn,
                   stderr_out = [PARSE_ERR (?s ! j)]\<rparr>"
            using ne Some unfolding segs by (simp add: parse_post_def)
          moreover have "2 * cmdn \<le> length argv + 1"
            using cl lci ile by simp
          ultimately show ?thesis
            by simp
        next
          case None
          have nc': "new_cmd (drop lc argv) (i - lc) = Inr (built ?s)"
            using nc None by simp
          have eq: "parse_loop argv i lc cmds cmdn =
              parse_loop argv (i + 1) (i + 1) (cmds[cmdn := Some (built ?s)]) (cmdn + 1)"
            using lt pipe small False c nc' by (subst parse_loop.simps) simp
          have "\<exists>pr. parse_loop argv (i + 1) (i + 1) (cmds[cmdn := Some (built ?s)]) (cmdn + 1)
                  = Inr pr
              \<and> parse_post (segments (drop (i + 1) argv)) (cmds[cmdn := Some (built ?s)])
                  (cmdn + 1) pr
              \<and> 2 * cmdn_out pr \<le> length argv + 1"
          proof (rule "1.IH"(1)[OF lt pipe small False _ nc'])
            show "\<not> \<not> cmdn < length cmds" using c by simp
            show "i + 1 \<le> i + 1" by simp
            show "i + 1 \<le> length argv" using lt by simp
            show "\<forall>k. i + 1 \<le> k \<and> k < i + 1 \<longrightarrow> \<not> is_pipe (argv ! k)" by auto
            show "length argv \<le> 127" by (rule l127)
            show "length argv < 2 * length (cmds[cmdn := Some (built ?s)])"
              using lcmds by simp
            show "2 * (cmdn + 1) \<le> i + 1"
              using cl lci False by simp
          qed
          then obtain pr where
            r: "parse_loop argv (i + 1) (i + 1) (cmds[cmdn := Some (built ?s)]) (cmdn + 1) = Inr pr"
            and post: "parse_post (segments (drop (Suc i) argv)) (cmds[cmdn := Some (built ?s)])
                  (Suc cmdn) pr"
            and b: "2 * cmdn_out pr \<le> length argv + 1"
            by auto
          have "parse_post (?s # segments (drop (Suc i) argv)) cmds cmdn pr"
            using ne None c post by (rule parse_post_cons)
          with r b eq segs show ?thesis
            by simp
        qed
      qed
    next
      case nopipe_i: False
      have eq: "parse_loop argv i lc cmds cmdn = parse_loop argv (i + 1) lc cmds cmdn"
        using lt nopipe_i by (subst parse_loop.simps) simp
      have "\<exists>pr. parse_loop argv (i + 1) lc cmds cmdn = Inr pr
          \<and> parse_post (segments (drop lc argv)) cmds cmdn pr
          \<and> 2 * cmdn_out pr \<le> length argv + 1"
      proof (rule "1.IH"(2)[OF lt nopipe_i])
        show "lc \<le> i + 1" using lci by simp
        show "i + 1 \<le> length argv" using lt by simp
        show "\<forall>k. lc \<le> k \<and> k < i + 1 \<longrightarrow> \<not> is_pipe (argv ! k)"
          using nopipe nopipe_i by (auto simp: less_Suc_eq)
        show "length argv \<le> 127" by (rule l127)
        show "length argv < 2 * length cmds" by (rule lcmds)
        show "2 * cmdn \<le> lc" by (rule cl)
      qed
      with eq show ?thesis
        by simp
    qed
  next
    case ge: False
    then have il: "i = length argv"
      using ile by simp
    let ?s = "drop lc argv"
    have segs: "segments ?s = [?s]"
      using lci nopipe unfolding il by (intro segments_at_end) simp_all
    show ?thesis
    proof (cases "i - lc > 0")
      case False
      then have e: "?s = []"
        using il by simp
      have "parse_loop argv i lc cmds cmdn =
            Inr \<lparr>ret = 0, cmds_out = cmds, cmdn_out = cmdn, stderr_out = [PARSE_ERR ''|'']\<rparr>"
        using ge small False by (subst parse_loop.simps) simp
      moreover have "parse_post (segments ?s) cmds cmdn
            \<lparr>ret = 0, cmds_out = cmds, cmdn_out = cmdn, stderr_out = [PARSE_ERR ''|'']\<rparr>"
        unfolding segs using e by (simp add: parse_post_def)
      moreover have "2 * cmdn \<le> length argv + 1"
        using cl lci ile by simp
      ultimately show ?thesis
        by simp
    next
      case True
      have c: "cmdn < length cmds"
        using cl True il lcmds by simp
      have ne: "?s \<noteq> []"
        using True il by simp
      have t: "take (length ?s) ?s = ?s"
        by (rule take_all) simp
      have n: "i - lc = length ?s"
        using il by simp
      have "length ?s \<le> length ?s"
        by simp
      then have "new_cmd ?s (length ?s) =
            (case first_bad (take (length ?s) ?s) of Some j \<Rightarrow> Inl (take (length ?s) ?s ! j)
             | None \<Rightarrow> Inr (built (take (length ?s) ?s)))"
        by (rule new_cmd_segment)
      then have nc: "new_cmd ?s (i - lc) =
            (case first_bad ?s of Some j \<Rightarrow> Inl (?s ! j) | None \<Rightarrow> Inr (built ?s))"
        unfolding t n .
      show ?thesis
      proof (cases "first_bad ?s")
        case (Some j)
        have "parse_loop argv i lc cmds cmdn =
              Inr \<lparr>ret = 0, cmds_out = cmds[cmdn := None], cmdn_out = cmdn,
                   stderr_out = [PARSE_ERR (?s ! j)]\<rparr>"
          using ge small True c nc Some by (subst parse_loop.simps) simp
        moreover have "parse_post (segments ?s) cmds cmdn
              \<lparr>ret = 0, cmds_out = cmds[cmdn := None], cmdn_out = cmdn,
                   stderr_out = [PARSE_ERR (?s ! j)]\<rparr>"
          unfolding segs using ne Some by (simp add: parse_post_def)
        moreover have "2 * cmdn \<le> length argv + 1"
          using cl lci ile by simp
        ultimately show ?thesis
          by simp
      next
        case None
        have "parse_loop argv i lc cmds cmdn =
              Inr \<lparr>ret = 1, cmds_out = cmds[cmdn := Some (built ?s)], cmdn_out = cmdn + 1,
                   stderr_out = []\<rparr>"
          using ge small True c nc None by (subst parse_loop.simps) simp
        moreover have "parse_post (segments ?s) cmds cmdn
              \<lparr>ret = 1, cmds_out = cmds[cmdn := Some (built ?s)], cmdn_out = cmdn + 1,
                   stderr_out = []\<rparr>"
          unfolding segs using ne None c by (simp add: parse_post_def)
        moreover have "2 * (cmdn + 1) \<le> length argv + 1"
          using cl True il by simp
        ultimately show ?thesis
          by simp
      qed
    qed
  qed
qed

lemma parse_char:
  assumes ne: "argv \<noteq> []" and l: "length argv \<le> 63" and c: "length cmds = 32"
  shows "\<exists>pr. parse argv cmds = Inr pr \<and> parse_post (segments argv) cmds 0 pr
      \<and> cmdn_out pr \<le> 32"
proof -
  have "\<exists>pr. parse_loop argv 0 0 cmds 0 = Inr pr
        \<and> parse_post (segments (drop 0 argv)) cmds 0 pr
        \<and> 2 * cmdn_out pr \<le> length argv + 1"
    using l c by (intro parse_loop_char) simp_all
  then obtain pr where r: "parse_loop argv 0 0 cmds 0 = Inr pr"
    and post: "parse_post (segments argv) cmds 0 pr"
    and b: "2 * cmdn_out pr \<le> length argv + 1"
    by auto
  from b l have "cmdn_out pr \<le> 32"
    by simp
  with r post ne show ?thesis
    by (simp add: parse_def)
qed

lemma parse_no_fault:
  assumes l: "length argv \<le> 63" and c: "length cmds = 32"
  shows "\<exists>pr. parse argv cmds = Inr pr \<and> cmdn_out pr \<le> 32 \<and> length (cmds_out pr) = 32"
proof (cases "argv = []")
  case True
  then show ?thesis
    using c by (simp add: parse_def)
next
  case False
  then obtain pr where "parse argv cmds = Inr pr" "parse_post (segments argv) cmds 0 pr"
    "cmdn_out pr \<le> 32"
    using parse_char[OF _ l c] by blast
  then show ?thesis
    using c by (auto simp: parse_post_def)
qed

lemma add_arg_length: "length as \<le> 63 \<Longrightarrow> length (add_arg t as) \<le> 63"
  by (simp add: add_arg_def NUMARGS_def)

lemma add_arg_full: "length as = 63 \<Longrightarrow> add_arg t as = as"
  by (simp add: add_arg_def NUMARGS_def)

lemma yylex_length: "length as \<le> 63 \<Longrightarrow> length (fst (yylex as inp)) \<le> 63"
proof (induction as inp rule: yylex.induct)
  case (1 as)
  then show ?case by simp
next
  case (2 as c cs)
  then show ?case
    by (simp add: add_arg_length ADD_TOK_def)
qed

lemma yylex_full: "length as = 63 \<Longrightarrow> fst (yylex as inp) = as"
proof (induction as inp rule: yylex.induct)
  case (1 as)
  then show ?case by simp
next
  case (2 as c cs)
  then show ?case
    by (simp add: add_arg_full ADD_TOK_def)
qed

lemma getline_length: "length (fst (getline inp)) \<le> 63"
  unfolding getline_def by (rule yylex_length) simp

lemma getline_long_line: "fst (getline long_line) = [''a'', ''|'', ''a'', ''|'', ''a'', ''|'', ''a'', ''|'', ''a'', ''|'', ''a'', ''|'', ''a'', ''|'', ''a'', ''|'', ''a'', ''|'', ''a'', ''|'', ''a'', ''|'', ''a'', ''|'', ''a'', ''|'', ''a'', ''|'', ''a'', ''|'', ''a'', ''|'', ''a'', ''|'', ''a'', ''|'', ''a'', ''|'', ''a'', ''|'', ''a'', ''|'', ''a'', ''|'', ''a'', ''|'', ''a'', ''|'', ''a'', ''|'', ''a'', ''|'', ''a'', ''|'', ''a'', ''|'', ''a'', ''|'', ''a'', ''|'', ''a'', ''|'', ''a'']"
  by (simp add: long_line_def lex_eval)

lemma parse_long_line:
  "map_sum id (\<lambda>pr. (ret pr, cmdn_out pr)) (parse [''a'', ''|'', ''a'', ''|'', ''a'', ''|'', ''a'', ''|'', ''a'', ''|'', ''a'', ''|'', ''a'', ''|'', ''a'', ''|'', ''a'', ''|'', ''a'', ''|'', ''a'', ''|'', ''a'', ''|'', ''a'', ''|'', ''a'', ''|'', ''a'', ''|'', ''a'', ''|'', ''a'', ''|'', ''a'', ''|'', ''a'', ''|'', ''a'', ''|'', ''a'', ''|'', ''a'', ''|'', ''a'', ''|'', ''a'', ''|'', ''a'', ''|'', ''a'', ''|'', ''a'', ''|'', ''a'', ''|'', ''a'', ''|'', ''a'', ''|'', ''a'', ''|'', ''a''] (replicate 32 None))
     = Inr (1, 32)"
  by (simp add: parse_eval)

text \<open>
  C8.  \<open>getline\<close> never returns more than 63 tokens, and once 63 are stored every further
  token is dropped.  On such a line \<open>parse\<close>, given the 32-element array of \<open>main\<close>,
  never writes outside the array (it ends without a fault) and counts at most 32 commands.
\<close>

theorem token_and_command_bounds:
  "length (fst (getline inp)) \<le> 63
   \<and> (length as = 63 \<longrightarrow> fst (yylex as inp) = as)
   \<and> (length cmds = 32 \<longrightarrow>
        (\<exists>pr. parse (fst (getline inp)) cmds = Inr pr \<and> cmdn_out pr \<le> 32
              \<and> length (cmds_out pr) = 32))"
  using getline_length[of inp] yylex_full[of as inp]
    parse_no_fault[of "fst (getline inp)" cmds]
  by blast

theorem token_and_command_bounds_witness:
  "length (fst (getline long_line)) = 63
   \<and> length (replicate 32 (None :: Cmd option)) = 32
   \<and> (\<exists>pr. parse (fst (getline long_line)) (replicate 32 None) = Inr pr \<and> cmdn_out pr = 32
         \<and> length (cmds_out pr) = 32)"
proof -
  have l: "length (fst (getline long_line)) = 63"
    by (simp add: getline_long_line)
  obtain pr where p: "parse (fst (getline long_line)) (replicate 32 None) = Inr pr"
    and n: "length (cmds_out pr) = 32"
    using token_and_command_bounds[of long_line "[]" "replicate 32 None"] by auto
  have "cmdn_out pr = 32"
    using parse_long_line p by (simp add: getline_long_line)
  with l p n show ?thesis
    by simp
qed

lemma segments_pipe_pair:
  assumes "Suc j < length argv" "is_pipe (argv ! j)" "is_pipe (argv ! Suc j)"
  shows "[] \<in> set (segments argv)"
proof -
  have "argv = take j argv @ argv ! j # drop (Suc j) argv"
    using assms(1) by (intro id_take_nth_drop) simp
  moreover have "drop (Suc j) argv = argv ! Suc j # drop (Suc (Suc j)) argv"
    using assms(1) by (rule Cons_nth_drop_Suc[symmetric])
  ultimately have "argv = take j argv @ argv ! j # argv ! Suc j # drop (Suc (Suc j)) argv"
    by simp
  then have "segments argv =
      segments (take j argv @ argv ! j # argv ! Suc j # drop (Suc (Suc j)) argv)"
    by simp
  also have "\<dots> = segments (take j argv) @ segments (argv ! Suc j # drop (Suc (Suc j)) argv)"
    using assms(2) by (rule segments_append)
  finally show ?thesis
    using assms(3) by simp
qed

lemma segments_has_empty:
  assumes j: "j < length argv" and p: "is_pipe (argv ! j)"
    and pos: "j = 0 \<or> Suc j = length argv \<or> is_pipe (argv ! Suc j) \<or> is_pipe (argv ! (j - 1))"
  shows "[] \<in> set (segments argv)"
proof -
  have split: "argv = take j argv @ argv ! j # drop (Suc j) argv"
    using j by (rule id_take_nth_drop)
  have app: "segments argv = segments (take j argv) @ segments (drop (Suc j) argv)"
    using segments_append[OF p, of "take j argv" "drop (Suc j) argv"] split by simp
  consider (leading) "j = 0" | (trailing) "Suc j = length argv"
    | (before) "Suc j < length argv" "is_pipe (argv ! Suc j)"
    | (after) "0 < j" "is_pipe (argv ! (j - 1))"
    using pos j by (cases "Suc j = length argv"; cases "j = 0") auto
  then show ?thesis
  proof cases
    case leading
    with app show ?thesis by simp
  next
    case trailing
    with app show ?thesis by simp
  next
    case before
    with p show ?thesis by (intro segments_pipe_pair[of j]) simp_all
  next
    case after
    then have "Suc (j - 1) < length argv" "is_pipe (argv ! Suc (j - 1))"
      using j p by simp_all
    with after(2) show ?thesis by (intro segments_pipe_pair[of "j - 1"]) simp_all
  qed
qed

lemma first_bad_redirect: "first_bad s = Some j \<Longrightarrow> j < length s \<and> is_redirect (s ! j)"
  by (auto simp: first_bad_def find_Some_iff bad_redirect_def)

lemma build_empty:
  "[] \<in> set ss \<Longrightarrow> \<exists>e. build ss = Inl e \<and> (e = ''|'' \<or> (\<exists>s\<in>set ss. e \<in> set s \<and> is_redirect e))"
proof (induction ss)
  case Nil
  then show ?case by simp
next
  case (Cons s ss)
  show ?case
  proof (cases "s = []")
    case True
    then show ?thesis by simp
  next
    case ne: False
    show ?thesis
    proof (cases "first_bad s")
      case (Some j)
      then have "j < length s" "is_redirect (s ! j)"
        using first_bad_redirect by blast+
      with ne Some show ?thesis by auto
    next
      case None
      from Cons.prems ne have "[] \<in> set ss" by auto
      then obtain e where "build ss = Inl e"
        and "e = ''|'' \<or> (\<exists>s\<in>set ss. e \<in> set s \<and> is_redirect e)"
        using Cons.IH by blast
      with ne None show ?thesis by auto
    qed
  qed
qed

lemma build_bad_segment:
  "s \<in> set ss \<Longrightarrow> first_bad s \<noteq> None \<Longrightarrow> \<exists>e. build ss = Inl e"
proof (induction ss)
  case Nil
  then show ?case by simp
next
  case (Cons a ss)
  show ?case
  proof (cases "a = [] \<or> first_bad a \<noteq> None")
    case True
    then show ?thesis by auto
  next
    case False
    with Cons.prems have "s \<in> set ss" by auto
    then obtain e where "build ss = Inl e"
      using Cons.IH Cons.prems by blast
    with False show ?thesis by auto
  qed
qed

lemma segments_tokens: "s \<in> set (segments ts) \<Longrightarrow> set s \<subseteq> set ts"
proof (induction ts arbitrary: s)
  case Nil
  then show ?case by simp
next
  case (Cons t ts)
  show ?case
  proof (cases "is_pipe t")
    case True
    with Cons show ?thesis by auto
  next
    case False
    obtain a as where S: "segments ts = a # as"
      using segments_ne[of ts] by (cases "segments ts") auto
    with Cons.prems False have "s = t # a \<or> s \<in> set as"
      by simp
    then show ?thesis
    proof
      assume "s = t # a"
      moreover have "set a \<subseteq> set ts" using Cons.IH[of a] S by simp
      ultimately show ?thesis by auto
    next
      assume "s \<in> set as"
      then have "set s \<subseteq> set ts" using Cons.IH[of s] S by simp
      then show ?thesis by auto
    qed
  qed
qed

lemma first_bad_le:
  assumes "j < length seg" "bad_redirect seg j"
  shows "\<exists>k\<le>j. first_bad seg = Some k \<and> bad_redirect seg k"
proof (cases "first_bad seg")
  case None
  with assms show ?thesis by (simp add: first_bad_None)
next
  case (Some k)
  then have b: "bad_redirect seg k" and m: "\<forall>i<k. \<not> bad_redirect seg i"
    by (auto simp: first_bad_def find_Some_iff)
  from m assms(2) have "k \<le> j"
    by (meson not_le)
  with Some b show ?thesis by simp
qed

lemma main_iter_parse_fail:
  assumes "getline (sh_input sh) = (argv, st, rest)" "parse argv (sh_cmds sh) = Inr pr"
    "ret pr = 0"
  shows "\<exists>sh'. main_iter sh = Done sh' \<and> sh_input sh' = rest \<and> sh_status sh' = st
    \<and> stderr (sh_world sh') = stderr (sh_world sh) @ stderr_out pr
    \<and> spawned (sh_world sh') = spawned (sh_world sh)
    \<and> fork_calls (sh_world sh') = fork_calls (sh_world sh)
    \<and> pipe_calls (sh_world sh') = pipe_calls (sh_world sh)
    \<and> children (sh_world sh') = children (sh_world sh)
    \<and> cwd (sh_world sh') = cwd (sh_world sh)"
  using assms by (simp add: main_iter_def Let_def)

lemma getline_ex5: "getline ''a < |'' = ([''a'', ''<'', ''|''], - 1, [])"
  by (simp add: lex_eval)

lemma parse_ex5:
  "parse [''a'', ''<'', ''|''] (replicate 32 None) =
     Inr \<lparr>ret = 0, cmds_out = (replicate 32 None)[0 := None], cmdn_out = 0,
          stderr_out = [PARSE_ERR ''<'']\<rparr>"
  by (simp add: parse_eval)

text \<open>
  The line \<open>a < |\<close> ends in a pipe token, and its syntax error cites \<open><\<close>, not \<open>|\<close>.
\<close>

theorem trailing_pipe_cites_redirect:
  "is_pipe (last (fst (getline ''a < |'')))
   \<and> parse (fst (getline ''a < |'')) (replicate 32 None) =
       Inr \<lparr>ret = 0, cmds_out = (replicate 32 None)[0 := None], cmdn_out = 0,
            stderr_out = [PARSE_ERR ''<'']\<rparr>
   \<and> PARSE_ERR ''<'' \<noteq> PARSE_ERR ''|''"
  by (simp add: getline_ex5 parse_ex5 is_pipe_def PARSE_ERR_def)

lemma getline_ex6: "getline ''a << b'' = ([''a'', ''<'', ''<'', ''b''], - 1, [])"
  by (simp add: lex_eval)

lemma parse_ex6:
  "length cmds = 32 \<Longrightarrow>
   parse [''a'', ''<'', ''<'', ''b''] cmds =
     Inr \<lparr>ret = 0, cmds_out = cmds[0 := None], cmdn_out = 0, stderr_out = [PARSE_ERR ''<'']\<rparr>"
  by (simp add: parse_eval)

lemma first_bad_ex6: "first_bad [''a'', ''<'', ''<'', ''b''] = Some 2"
  by (simp add: first_bad_def bad_redirect_def is_redirect_def upt_conv_Cons)

text \<open>
  C5 (as amended).  A segment with a redirect symbol that is its final token or comes right
  after another redirect symbol is refused by \<open>new_cmd\<close>, and a line with such a segment is
  refused by \<open>parse\<close> with a syntax error.  The symbol \<open>new_cmd\<close> cites is the first one
  of the segment, in scan order, that is the first token, the final token or right after
  another redirect symbol; it stands at or before the symbol in question.  The line
  \<open>a << b\<close> is refused citing the second \<open><\<close>, the token at index 2.
\<close>

theorem misplaced_redirect_rejected:
  assumes n: "n \<le> length argv" and j: "j < n" and r: "is_redirect (argv ! j)"
    and pos: "Suc j = n \<or> (0 < j \<and> is_redirect (argv ! (j - 1)))"
    and seg: "take n argv \<in> set (segments toks)" and l: "length toks \<le> 63"
    and c: "length cmds = 32"
  shows "(\<exists>k\<le>j. first_bad (take n argv) = Some k \<and> new_cmd argv n = Inl (argv ! k)
            \<and> is_redirect (argv ! k))
    \<and> (\<exists>pr e. parse toks cmds = Inr pr \<and> ret pr = 0 \<and> stderr_out pr = [PARSE_ERR e])
    \<and> first_bad (fst (getline ''a << b'')) = Some 2
    \<and> parse (fst (getline ''a << b'')) cmds =
        Inr \<lparr>ret = 0, cmds_out = cmds[0 := None], cmdn_out = 0,
             stderr_out = [PARSE_ERR ''<'']\<rparr>"
proof -
  let ?seg = "take n argv"
  have len: "length ?seg = n"
    using n by simp
  have nth: "?seg ! j = argv ! j"
    using j by simp
  have "bad_redirect ?seg j"
  proof (cases "Suc j = n")
    case True
    with r nth len show ?thesis by (simp add: bad_redirect_def)
  next
    case False
    with pos have "0 < j" "is_redirect (argv ! (j - 1))" by simp_all
    moreover from this j have "?seg ! (j - 1) = argv ! (j - 1)" by simp
    ultimately show ?thesis using r nth by (simp add: bad_redirect_def)
  qed
  moreover have "j < length ?seg"
    using j len by simp
  ultimately obtain k where k: "k \<le> j" and fb: "first_bad ?seg = Some k"
    and b: "bad_redirect ?seg k"
    using first_bad_le by blast
  from k j have "?seg ! k = argv ! k"
    by simp
  with b have rk: "is_redirect (argv ! k)"
    by (simp add: bad_redirect_def)
  have nc: "new_cmd argv n = Inl (argv ! k)"
    using new_cmd_char[OF n] fb by simp
  have ne: "toks \<noteq> []"
  proof
    assume "toks = []"
    with seg have "?seg = []" by simp
    with len j show False by simp
  qed
  obtain pr where pr: "parse toks cmds = Inr pr" and post: "parse_post (segments toks) cmds 0 pr"
    using parse_char[OF ne l c] by blast
  obtain e where "build (segments toks) = Inl e"
    using build_bad_segment[OF seg] fb by auto
  with post have "ret pr = 0" "stderr_out pr = [PARSE_ERR e]"
    by (simp_all add: parse_post_def)
  with pr k fb nc rk show ?thesis
    using parse_ex6[OF c] first_bad_ex6 by (auto simp: getline_ex6)
qed

theorem misplaced_redirect_rejected_witness:
  "4 \<le> length [''a'', ''<'', ''<'', ''b''] \<and> (2::nat) < 4
   \<and> is_redirect ([''a'', ''<'', ''<'', ''b''] ! 2)
   \<and> (0::nat) < 2 \<and> is_redirect ([''a'', ''<'', ''<'', ''b''] ! (2 - 1))
   \<and> take 4 [''a'', ''<'', ''<'', ''b''] \<in> set (segments [''a'', ''<'', ''<'', ''b''])
   \<and> length [''a'', ''<'', ''<'', ''b''] \<le> 63
   \<and> length (replicate 32 (None :: Cmd option)) = 32
   \<and> new_cmd [''a'', ''<'', ''<'', ''b''] 4 = Inl ''<''
   \<and> first_bad (take 4 [''a'', ''<'', ''<'', ''b'']) = Some 2"
proof -
  have a: "4 \<le> length [''a'', ''<'', ''<'', ''b'']"
    by simp
  have b: "(2::nat) < 4"
    by simp
  have c: "is_redirect ([''a'', ''<'', ''<'', ''b''] ! 2)"
    by (simp add: is_redirect_def)
  have d: "(0::nat) < 2 \<and> is_redirect ([''a'', ''<'', ''<'', ''b''] ! (2 - 1))"
    by (simp add: is_redirect_def)
  then have d': "Suc 2 = 4 \<or> ((0::nat) < 2 \<and> is_redirect ([''a'', ''<'', ''<'', ''b''] ! (2 - 1)))"
    by simp
  have e: "take 4 [''a'', ''<'', ''<'', ''b''] \<in> set (segments [''a'', ''<'', ''<'', ''b''])"
    by (simp add: is_pipe_def)
  have f: "length [''a'', ''<'', ''<'', ''b''] \<le> 63"
    by simp
  have g: "length (replicate 32 (None :: Cmd option)) = 32"
    by simp
  have "\<exists>k\<le>2. first_bad (take 4 [''a'', ''<'', ''<'', ''b'']) = Some k
      \<and> new_cmd [''a'', ''<'', ''<'', ''b''] 4 = Inl ([''a'', ''<'', ''<'', ''b''] ! k)"
    using misplaced_redirect_rejected[OF a b c d' e f g] by blast
  then have "new_cmd [''a'', ''<'', ''<'', ''b''] 4 = Inl ''<''
      \<and> first_bad (take 4 [''a'', ''<'', ''<'', ''b'']) = Some 2"
    using first_bad_ex6 by auto
  with a b c d e f g show ?thesis
    by blast
qed

text \<open>
  The segment \<open>< a >\<close> ends in the redirect symbol \<open>>\<close>, and \<open>new_cmd\<close> cites \<open><\<close>, the
  first token, which is neither final nor behind another redirect symbol.
\<close>

theorem final_symbol_not_cited:
  "is_redirect ([''<'', ''a'', ''>''] ! 2) \<and> Suc 2 = length [''<'', ''a'', ''>'']
   \<and> [''<'', ''a'', ''>''] ! 2 = ''>''
   \<and> new_cmd [''<'', ''a'', ''>''] 3 = Inl ''<''"
  by (simp add: new_cmd_def new_cmd_scan.simps is_redirect_def)

declare wait_loop.simps [simp del]

declare exec_pipe_loop.simps [simp del]

declare main_loop.simps [simp del]

lemmas exec_eval = main_iter_def exec_def exec_pipe_def exec_pipe_loop.simps spawn_def
  cmd_exit_def cmd_cd_def chdir_def fork_def pipe_def close_def wait_loop.simps wait_def
  wstatus_def cmd_at_def char_at_def eprint_def perror_def STDIN_FILENO_def STDOUT_FILENO_def
  CMD_SUCCESS_def CMD_FAILURE_def CMD_EXIT_def T_EXIT_def T_CD_def Let_def

lemma getline_long_line_full: "getline long_line = (fst (getline long_line), - 1, [])"
  by (simp add: long_line_def lex_eval)

lemma main_iter_long_line:
  "\<exists>sh'. main_iter (demo_shell long_line quiet_world) = Done sh'
     \<and> stderr (sh_world sh') = [] \<and> length (spawned (sh_world sh')) = 32
     \<and> pipe_calls (sh_world sh') = 31"
  apply (subst main_iter_def)
  apply (simp only: demo_shell_def shell.simps)
  apply (subst getline_long_line_full)
  apply (subst getline_long_line)
  apply (simp add: parse_eval exec_eval quiet_world_def)
  done

text \<open>
  C4 (as amended).  The tokens of a line are those \<open>getline\<close> delivers: the first 63, the
  tokens of a longer line beyond them being dropped before \<open>parse\<close> runs.  When a pipe token
  among them is first, last or next to another pipe token, \<open>parse\<close> fails with one syntax
  error.  The token cited is the one the segments give in order: \<open>|\<close>, or the misplaced
  redirect symbol of a segment before the first empty one; it is \<open>|\<close> whenever the line has
  no redirect symbol.  That iteration of \<open>main\<close> returns having forked nothing, made no
  pipe, and left the working directory alone.  A pipe token beyond the 63rd token is not
  seen: \<open>long_line\<close>, whose 70th and last token is a pipe, is cut to 63 tokens ending in a
  word and is run as a pipeline of 32 commands without any diagnostic.
\<close>

theorem misplaced_pipe_rejected:
  assumes g: "getline (sh_input sh) = (argv, st, rest)" and len: "length (sh_cmds sh) = 32"
    and j: "j < length argv" and p: "is_pipe (argv ! j)"
    and pos: "j = 0 \<or> Suc j = length argv \<or> is_pipe (argv ! Suc j) \<or> is_pipe (argv ! (j - 1))"
  shows "(\<exists>pr e sh'. parse argv (sh_cmds sh) = Inr pr \<and> ret pr = 0
    \<and> build (segments argv) = Inl e \<and> stderr_out pr = [PARSE_ERR e]
    \<and> (e = ''|'' \<or> is_redirect e)
    \<and> ((\<forall>t\<in>set argv. \<not> is_redirect t) \<longrightarrow> e = ''|'')
    \<and> main_iter sh = Done sh' \<and> sh_input sh' = rest
    \<and> stderr (sh_world sh') = stderr (sh_world sh) @ [PARSE_ERR e]
    \<and> spawned (sh_world sh') = spawned (sh_world sh)
    \<and> fork_calls (sh_world sh') = fork_calls (sh_world sh)
    \<and> pipe_calls (sh_world sh') = pipe_calls (sh_world sh)
    \<and> children (sh_world sh') = children (sh_world sh)
    \<and> cwd (sh_world sh') = cwd (sh_world sh))
   \<and> length argv \<le> 63
   \<and> last long_line = CHR ''|''
   \<and> length (fst (getline long_line)) = 63 \<and> last (fst (getline long_line)) = ''a''
   \<and> (\<exists>sh'. main_iter (demo_shell long_line quiet_world) = Done sh'
         \<and> stderr (sh_world sh') = [] \<and> length (spawned (sh_world sh')) = 32
         \<and> pipe_calls (sh_world sh') = 31)"
proof -
  have "length (fst (getline (sh_input sh))) \<le> 63"
    by (rule getline_length)
  then have l: "length argv \<le> 63"
    using g by simp
  have ne: "argv \<noteq> []"
    using j by auto
  obtain pr where pr: "parse argv (sh_cmds sh) = Inr pr"
    and post: "parse_post (segments argv) (sh_cmds sh) 0 pr"
    using parse_char[OF ne l len] by blast
  have "[] \<in> set (segments argv)"
    using j p pos by (rule segments_has_empty)
  then obtain e where e: "build (segments argv) = Inl e"
    and cite: "e = ''|'' \<or> (\<exists>s\<in>set (segments argv). e \<in> set s \<and> is_redirect e)"
    using build_empty by blast
  from post e have r: "ret pr = 0" and err: "stderr_out pr = [PARSE_ERR e]"
    by (simp_all add: parse_post_def)
  from cite have c1: "e = ''|'' \<or> is_redirect e"
    by blast
  have c2: "(\<forall>t\<in>set argv. \<not> is_redirect t) \<longrightarrow> e = ''|''"
    using cite segments_tokens by blast
  obtain sh' where "main_iter sh = Done sh'" "sh_input sh' = rest"
    "stderr (sh_world sh') = stderr (sh_world sh) @ stderr_out pr"
    "spawned (sh_world sh') = spawned (sh_world sh)"
    "fork_calls (sh_world sh') = fork_calls (sh_world sh)"
    "pipe_calls (sh_world sh') = pipe_calls (sh_world sh)"
    "children (sh_world sh') = children (sh_world sh)"
    "cwd (sh_world sh') = cwd (sh_world sh)"
    using main_iter_parse_fail[OF g pr r] by blast
  with pr r e err c1 c2 have first: "\<exists>pr e sh'. parse argv (sh_cmds sh) = Inr pr \<and> ret pr = 0
    \<and> build (segments argv) = Inl e \<and> stderr_out pr = [PARSE_ERR e]
    \<and> (e = ''|'' \<or> is_redirect e)
    \<and> ((\<forall>t\<in>set argv. \<not> is_redirect t) \<longrightarrow> e = ''|'')
    \<and> main_iter sh = Done sh' \<and> sh_input sh' = rest
    \<and> stderr (sh_world sh') = stderr (sh_world sh) @ [PARSE_ERR e]
    \<and> spawned (sh_world sh') = spawned (sh_world sh)
    \<and> fork_calls (sh_world sh') = fork_calls (sh_world sh)
    \<and> pipe_calls (sh_world sh') = pipe_calls (sh_world sh)
    \<and> children (sh_world sh') = children (sh_world sh)
    \<and> cwd (sh_world sh') = cwd (sh_world sh)"
    by auto
  have a: "last long_line = CHR ''|''"
    by (simp add: long_line_def)
  have b: "length (fst (getline long_line)) = 63 \<and> last (fst (getline long_line)) = ''a''"
    by (simp add: getline_long_line)
  from first l a b main_iter_long_line show ?thesis
    by (intro conjI) simp_all
qed

lemma getline_ex4: "getline ''a | | b'' = ([''a'', ''|'', ''|'', ''b''], - 1, [])"
  by (simp add: lex_eval)

theorem misplaced_pipe_rejected_witness:
  "getline (sh_input (demo_shell ''a | | b'' quiet_world)) = ([''a'', ''|'', ''|'', ''b''], - 1, [])
   \<and> length (sh_cmds (demo_shell ''a | | b'' quiet_world)) = 32
   \<and> (1::nat) < length [''a'', ''|'', ''|'', ''b'']
   \<and> is_pipe ([''a'', ''|'', ''|'', ''b''] ! 1)
   \<and> is_pipe ([''a'', ''|'', ''|'', ''b''] ! Suc 1)
   \<and> (\<exists>sh'. main_iter (demo_shell ''a | | b'' quiet_world) = Done sh'
         \<and> stderr (sh_world sh') = [PARSE_ERR ''|'']
         \<and> spawned (sh_world sh') = [] \<and> fork_calls (sh_world sh') = 0)"
proof -
  have a: "getline (sh_input (demo_shell ''a | | b'' quiet_world))
      = ([''a'', ''|'', ''|'', ''b''], - 1, [])"
    by (simp add: demo_shell_def getline_ex4)
  have b: "length (sh_cmds (demo_shell ''a | | b'' quiet_world)) = 32"
    by (simp add: demo_shell_def)
  have c: "(1::nat) < length [''a'', ''|'', ''|'', ''b'']"
    by simp
  have d: "is_pipe ([''a'', ''|'', ''|'', ''b''] ! 1)"
    by (simp add: is_pipe_def)
  have e: "is_pipe ([''a'', ''|'', ''|'', ''b''] ! Suc 1)"
    by (simp add: is_pipe_def)
  have f: "1 = 0 \<or> Suc 1 = length [''a'', ''|'', ''|'', ''b'']
      \<or> is_pipe ([''a'', ''|'', ''|'', ''b''] ! Suc 1)
      \<or> is_pipe ([''a'', ''|'', ''|'', ''b''] ! (1 - 1))"
    using e by simp
  have g: "\<forall>t\<in>set [''a'', ''|'', ''|'', ''b'']. \<not> is_redirect t"
    by (simp add: is_redirect_def)
  from misplaced_pipe_rejected[OF a b c d f] g
  have "\<exists>sh'. main_iter (demo_shell ''a | | b'' quiet_world) = Done sh'
         \<and> stderr (sh_world sh') = stderr (sh_world (demo_shell ''a | | b'' quiet_world))
              @ [PARSE_ERR ''|'']
         \<and> spawned (sh_world sh') = spawned (sh_world (demo_shell ''a | | b'' quiet_world))
         \<and> fork_calls (sh_world sh') = fork_calls (sh_world (demo_shell ''a | | b'' quiet_world))"
    by fastforce
  then have "\<exists>sh'. main_iter (demo_shell ''a | | b'' quiet_world) = Done sh'
         \<and> stderr (sh_world sh') = [PARSE_ERR ''|'']
         \<and> spawned (sh_world sh') = [] \<and> fork_calls (sh_world sh') = 0"
    by (simp add: demo_shell_def quiet_world_def)
  with a b c d e show ?thesis
    by blast
qed

lemma yylex_double_pipe: "yylex as (''||'' @ inp) = yylex as inp"
  by simp

lemma getline_ex7: "getline ''a || b'' = ([''a'', ''b''], - 1, [])"
  by (simp add: lex_eval)

lemma parse_ex7:
  "parse [''a'', ''b''] (replicate 32 None) =
     Inr \<lparr>ret = 1,
          cmds_out = (replicate 32 None)
            [0 := Some \<lparr>args = [''a'', ''b''], argn = 2, files_in = [], files_out = []\<rparr>],
          cmdn_out = 1, stderr_out = []\<rparr>"
  by (simp add: parse_eval numeral_2_eq_2)

lemma main_iter_ex7:
  "main_iter (demo_shell ''a || b'' quiet_world) =
     Done \<lparr>sh_running = False, sh_status = - 1, sh_input = [],
           sh_cmds = (replicate 32 None)
             [0 := Some \<lparr>args = [''a'', ''b''], argn = 2, files_in = [], files_out = []\<rparr>],
           sh_cmdn = 1,
           sh_world = quiet_world
             \<lparr>fork_calls := 1,
              spawned := [\<lparr>pid = 1,
                           pcmd = \<lparr>args = [''a'', ''b''], argn = 2, files_in = [],
                                   files_out = []\<rparr>,
                           fd_in = 0, fd_out = 1\<rparr>],
              reaped := [(1, 0)]\<rparr>\<rparr>"
  by (simp add: demo_shell_def getline_ex7 parse_ex7 exec_eval quiet_world_def)

text \<open>
  The line \<open>a || b\<close> is not a syntax error: \<open>parse\<close> succeeds on its tokens with one
  command and prints nothing.
\<close>

theorem double_pipe_line_accepted:
  "map_sum id (\<lambda>pr. (ret pr, cmdn_out pr, stderr_out pr))
     (parse (fst (getline ''a || b'')) (replicate 32 None)) = Inr (1, 1, [])"
  by (simp add: getline_ex7 parse_ex7)

text \<open>
  C2 (as amended).  The tokenizer drops \<open>||\<close> wherever a token may start, so the line
  \<open>a || b\<close> has the two tokens \<open>a\<close> and \<open>b\<close>; \<open>parse\<close> builds from them the single
  command with the argument list \<open>a b\<close> and reports no error; and \<open>main\<close> executes that
  command, forking one child on the standard streams and waiting for it.
\<close>

theorem double_pipe_is_dropped:
  "yylex as (''||'' @ inp) = yylex as inp
   \<and> getline ''a || b'' = ([''a'', ''b''], - 1, [])
   \<and> parse [''a'', ''b''] (replicate 32 None) =
       Inr \<lparr>ret = 1,
            cmds_out = (replicate 32 None)
              [0 := Some \<lparr>args = [''a'', ''b''], argn = 2, files_in = [], files_out = []\<rparr>],
            cmdn_out = 1, stderr_out = []\<rparr>
   \<and> main_iter (demo_shell ''a || b'' quiet_world) =
       Done \<lparr>sh_running = False, sh_status = - 1, sh_input = [],
             sh_cmds = (replicate 32 None)
               [0 := Some \<lparr>args = [''a'', ''b''], argn = 2, files_in = [], files_out = []\<rparr>],
             sh_cmdn = 1,
             sh_world = quiet_world
               \<lparr>fork_calls := 1,
                spawned := [\<lparr>pid = 1,
                             pcmd = \<lparr>args = [''a'', ''b''], argn = 2, files_in = [],
                                     files_out = []\<rparr>,
                             fd_in = 0, fd_out = 1\<rparr>],
                reaped := [(1, 0)]\<rparr>\<rparr>"
  using yylex_double_pipe[of as inp] getline_ex7 parse_ex7 main_iter_ex7 by simp

lemma spawn_exit:
  "args c = [CHR 0x0A, T_EXIT] # others \<Longrightarrow> spawn c file_in file_out w = Done (CMD_EXIT, w)"
  by (simp add: spawn_def char_at_def cmd_exit_def)

lemma exec_exit: "args c = [CHR 0x0A, T_EXIT] # others \<Longrightarrow> exec c w = Done (CMD_EXIT, w)"
  by (simp add: exec_def spawn_exit)

text \<open>
  C7.  When the line parses into exactly one command whose first argument is the exit
  marker, \<open>exec\<close> returns \<open>CMD_EXIT\<close> with the world untouched, the iteration of \<open>main\<close>
  clears \<open>running\<close> without a \<open>fork\<close>, \<open>pipe\<close>, \<open>wait\<close> or directory change, and the
  loop of \<open>main\<close> ends there.
\<close>

theorem sole_exit_ends_session:
  assumes g: "getline (sh_input sh) = (argv, st, rest)"
    and pr: "parse argv (sh_cmds sh) = Inr pr" and ok: "ret pr \<noteq> 0"
    and one: "cmdn_out pr = 1"
    and c: "0 < length (cmds_out pr)" "cmds_out pr ! 0 = Some c"
    and ex: "args c = [CHR 0x0A, T_EXIT] # others"
  shows "exec c w = Done (CMD_EXIT, w)
    \<and> (\<exists>sh'. main_iter sh = Done sh' \<and> \<not> sh_running sh' \<and> main_loop sh' = Done sh'
          \<and> (sh_running sh \<longrightarrow> main_loop sh = Done sh')
          \<and> sh_input sh' = rest
          \<and> spawned (sh_world sh') = spawned (sh_world sh)
          \<and> fork_calls (sh_world sh') = fork_calls (sh_world sh)
          \<and> pipe_calls (sh_world sh') = pipe_calls (sh_world sh)
          \<and> children (sh_world sh') = children (sh_world sh)
          \<and> reaped (sh_world sh') = reaped (sh_world sh)
          \<and> cwd (sh_world sh') = cwd (sh_world sh))"
proof -
  have e: "exec c w' = Done (CMD_EXIT, w')" for w'
    using ex by (rule exec_exit)
  have at: "cmd_at (cmds_out pr) 0 = Done c"
    using c by (simp add: cmd_at_def)
  obtain sh' where it: "main_iter sh = Done sh'" and nr: "\<not> sh_running sh'"
    and rest: "sh_input sh' = rest"
    and w: "spawned (sh_world sh') = spawned (sh_world sh)"
      "fork_calls (sh_world sh') = fork_calls (sh_world sh)"
      "pipe_calls (sh_world sh') = pipe_calls (sh_world sh)"
      "children (sh_world sh') = children (sh_world sh)"
      "reaped (sh_world sh') = reaped (sh_world sh)"
      "cwd (sh_world sh') = cwd (sh_world sh)"
    using g pr ok one at e by (simp add: main_iter_def Let_def)
  have stop: "main_loop sh' = Done sh'"
    using nr by (subst main_loop.simps) simp
  have "sh_running sh \<longrightarrow> main_loop sh = Done sh'"
    using it stop by (subst main_loop.simps) simp
  with e it nr rest w stop show ?thesis
    by blast
qed

lemma getline_exit: "getline (''exit'' @ [CHR 0x0A] @ ''ls'') = ([[CHR 0x0A, CHR ''e'']], 1, ''ls'')"
  by (simp add: lex_eval)

lemma parse_exit:
  "parse [[CHR 0x0A, CHR ''e'']] (replicate 32 None) =
     Inr \<lparr>ret = 1,
          cmds_out = (replicate 32 None)
            [0 := Some \<lparr>args = [[CHR 0x0A, CHR ''e'']], argn = 1, files_in = [],
                         files_out = []\<rparr>],
          cmdn_out = 1, stderr_out = []\<rparr>"
  by (simp add: parse_eval)

theorem sole_exit_ends_session_witness:
  "getline (sh_input (demo_shell (''exit'' @ [CHR 0x0A] @ ''ls'') quiet_world))
      = ([[CHR 0x0A, CHR ''e'']], 1, ''ls'')
   \<and> (\<exists>pr c. parse [[CHR 0x0A, CHR ''e'']]
                (sh_cmds (demo_shell (''exit'' @ [CHR 0x0A] @ ''ls'') quiet_world)) = Inr pr
        \<and> ret pr \<noteq> 0 \<and> cmdn_out pr = 1 \<and> 0 < length (cmds_out pr)
        \<and> cmds_out pr ! 0 = Some c \<and> args c = [CHR 0x0A, T_EXIT] # [])
   \<and> (\<exists>sh'. main (''exit'' @ [CHR 0x0A] @ ''ls'') (replicate 32 None) 0 quiet_world = Done sh'
        \<and> \<not> sh_running sh' \<and> sh_input sh' = ''ls'' \<and> fork_calls (sh_world sh') = 0
        \<and> spawned (sh_world sh') = [])"
proof -
  let ?sh = "demo_shell (''exit'' @ [CHR 0x0A] @ ''ls'') quiet_world"
  let ?pr = "\<lparr>ret = 1,
          cmds_out = (replicate 32 None)
            [0 := Some \<lparr>args = [[CHR 0x0A, CHR ''e'']], argn = 1, files_in = [],
                         files_out = []\<rparr>],
          cmdn_out = 1, stderr_out = []\<rparr>"
  let ?c = "\<lparr>args = [[CHR 0x0A, CHR ''e'']], argn = 1, files_in = [], files_out = []\<rparr>"
  have g: "getline (sh_input ?sh) = ([[CHR 0x0A, CHR ''e'']], 1, ''ls'')"
    using getline_exit by (simp add: demo_shell_def)
  have p: "parse [[CHR 0x0A, CHR ''e'']] (sh_cmds ?sh) = Inr ?pr"
    using parse_exit by (simp add: demo_shell_def)
  have ok: "ret ?pr \<noteq> 0" and one: "cmdn_out ?pr = 1" and l: "0 < length (cmds_out ?pr)"
    and c: "cmds_out ?pr ! 0 = Some ?c" and ex: "args ?c = [CHR 0x0A, T_EXIT] # []"
    by (simp_all add: T_EXIT_def)
  from sole_exit_ends_session[OF g p ok one l c ex, of quiet_world]
  obtain sh' where "main_loop ?sh = Done sh'" "\<not> sh_running sh'" "sh_input sh' = ''ls''"
    "fork_calls (sh_world sh') = fork_calls (sh_world ?sh)"
    "spawned (sh_world sh') = spawned (sh_world ?sh)"
    by (auto simp: demo_shell_def)
  then have "\<exists>sh'. main (''exit'' @ [CHR 0x0A] @ ''ls'') (replicate 32 None) 0 quiet_world = Done sh'
        \<and> \<not> sh_running sh' \<and> sh_input sh' = ''ls'' \<and> fork_calls (sh_world sh') = 0
        \<and> spawned (sh_world sh') = []"
    by (simp add: main_def demo_shell_def quiet_world_def)
  moreover have "\<exists>pr c. parse [[CHR 0x0A, CHR ''e'']] (sh_cmds ?sh) = Inr pr
        \<and> ret pr \<noteq> 0 \<and> cmdn_out pr = 1 \<and> 0 < length (cmds_out pr)
        \<and> cmds_out pr ! 0 = Some c \<and> args c = [CHR 0x0A, T_EXIT] # []"
    using p ok one l c ex by blast
  ultimately show ?thesis
    using g by blast
qed

text \<open>
  C6.  \<open>cmd_cd\<close> on a command whose \<open>argn\<close> is the length of its argument list
  (\<open>a0\<close> is the \<open>cd\<close> marker itself):
  \<^item> without an argument, or with the one argument \<open>~\<close>, it changes to the value of
    \<open>HOME\<close>, and fails with a message when \<open>HOME\<close> is unset;
  \<^item> with one argument that starts with \<open>~\<close> and goes on (a C string holds no 0 byte),
    it fails with the tilde message;
  \<^item> with two or more arguments it fails with the too-many-arguments message;
  \<^item> with any other single argument it changes to that path as written.
  A failed \<open>chdir\<close> is reported with the path and the system's error text.  Every
  failure leaves the world as it was but for the message, so the working directory stays.
\<close>

theorem cmd_cd_cases:
  assumes n: "argn cmd = length (args cmd)"
  shows "(args cmd = [a0] \<or> args cmd = [a0, ''~''] \<longrightarrow>
          cmd_cd cmd w =
            (case HOME w of
               None \<Rightarrow> Done (CMD_FAILURE,
                              eprint (''cd: $HOME env variable is invalid'' @ [CHR 0x0A]) w)
             | Some h \<Rightarrow> Done (chdir h w)))
    \<and> (args cmd = [a0, CHR ''~'' # x # xs] \<and> x \<noteq> CHR 0x00 \<longrightarrow>
          cmd_cd cmd w =
            Done (CMD_FAILURE, eprint (''cd: tilde expansion is not supported'' @ [CHR 0x0A]) w))
    \<and> (args cmd = a0 # p # q # others \<longrightarrow>
          cmd_cd cmd w = Done (CMD_FAILURE, eprint (''cd: too many arguments'' @ [CHR 0x0A]) w))
    \<and> (args cmd = [a0, p] \<and> (p = [] \<or> hd p \<noteq> CHR ''~'') \<longrightarrow>
          cmd_cd cmd w = Done (chdir p w))
    \<and> (fs_chdir w (cwd w) p = Inr d \<longrightarrow> chdir p w = (CMD_SUCCESS, w\<lparr>cwd := d\<rparr>))
    \<and> (fs_chdir w (cwd w) p = Inl e \<longrightarrow>
          chdir p w = (CMD_FAILURE, eprint (''cd: '' @ p @ '': '' @ e @ [CHR 0x0A]) w))
    \<and> cwd (eprint m w) = cwd w \<and> fork_calls (eprint m w) = fork_calls w
    \<and> spawned (eprint m w) = spawned w"
proof -
  have home: "args cmd = [a0] \<or> args cmd = [a0, ''~''] \<longrightarrow>
          cmd_cd cmd w =
            (case HOME w of
               None \<Rightarrow> Done (CMD_FAILURE,
                              eprint (''cd: $HOME env variable is invalid'' @ [CHR 0x0A]) w)
             | Some h \<Rightarrow> Done (chdir h w))"
    using n by (auto simp: cmd_cd_def char_at_def split: option.splits)
  have tilde: "args cmd = [a0, CHR ''~'' # x # xs] \<and> x \<noteq> CHR 0x00 \<longrightarrow>
          cmd_cd cmd w =
            Done (CMD_FAILURE, eprint (''cd: tilde expansion is not supported'' @ [CHR 0x0A]) w)"
    using n by (simp add: cmd_cd_def char_at_def)
  have many: "args cmd = a0 # p # q # others \<longrightarrow>
          cmd_cd cmd w = Done (CMD_FAILURE, eprint (''cd: too many arguments'' @ [CHR 0x0A]) w)"
    using n by (simp add: cmd_cd_def)
  have path: "args cmd = [a0, p] \<and> (p = [] \<or> hd p \<noteq> CHR ''~'') \<longrightarrow>
          cmd_cd cmd w = Done (chdir p w)"
    using n by (cases p) (auto simp: cmd_cd_def char_at_def)
  have ok: "fs_chdir w (cwd w) p = Inr d \<longrightarrow> chdir p w = (CMD_SUCCESS, w\<lparr>cwd := d\<rparr>)"
    by (simp add: chdir_def)
  have bad: "fs_chdir w (cwd w) p = Inl e \<longrightarrow>
          chdir p w = (CMD_FAILURE, eprint (''cd: '' @ p @ '': '' @ e @ [CHR 0x0A]) w)"
    by (simp add: chdir_def)
  have frame: "cwd (eprint m w) = cwd w \<and> fork_calls (eprint m w) = fork_calls w
    \<and> spawned (eprint m w) = spawned w"
    by (simp add: eprint_def)
  from home tilde many path ok bad frame show ?thesis
    by blast
qed

theorem cmd_cd_cases_witness:
  "argn (cd_cmd []) = length (args (cd_cmd []))
   \<and> cmd_cd (cd_cmd []) quiet_world = Done (CMD_SUCCESS, quiet_world\<lparr>cwd := ''/root''\<rparr>)
   \<and> cmd_cd (cd_cmd [''~'']) (quiet_world\<lparr>HOME := None\<rparr>) =
       Done (CMD_FAILURE,
             eprint (''cd: $HOME env variable is invalid'' @ [CHR 0x0A])
               (quiet_world\<lparr>HOME := None\<rparr>))
   \<and> cmd_cd (cd_cmd [''~foo'']) quiet_world =
       Done (CMD_FAILURE,
             eprint (''cd: tilde expansion is not supported'' @ [CHR 0x0A]) quiet_world)
   \<and> cmd_cd (cd_cmd [''a'', ''b'']) quiet_world =
       Done (CMD_FAILURE, eprint (''cd: too many arguments'' @ [CHR 0x0A]) quiet_world)
   \<and> cmd_cd (cd_cmd [''/tmp'']) quiet_world = Done (CMD_SUCCESS, quiet_world\<lparr>cwd := ''/tmp''\<rparr>)
   \<and> cmd_cd (cd_cmd [''/nonexistent'']) quiet_world =
       Done (CMD_FAILURE,
             eprint (''cd: /nonexistent: No such file or directory'' @ [CHR 0x0A]) quiet_world)"
proof -
  have n: "argn (cd_cmd ps) = length (args (cd_cmd ps))" for ps
    by (simp add: cd_cmd_def)
  have a: "cmd_cd (cd_cmd []) quiet_world = Done (CMD_SUCCESS, quiet_world\<lparr>cwd := ''/root''\<rparr>)"
    using cmd_cd_cases[where cmd = "cd_cmd []" and ?a0.0 = "[CHR 0x0A, T_CD]" and w = quiet_world
        and p = "''/root''" and d = "''/root''", OF n]
    by (simp add: cd_cmd_def quiet_world_def)
  have b: "cmd_cd (cd_cmd [''~'']) (quiet_world\<lparr>HOME := None\<rparr>) =
       Done (CMD_FAILURE,
             eprint (''cd: $HOME env variable is invalid'' @ [CHR 0x0A])
               (quiet_world\<lparr>HOME := None\<rparr>))"
    using cmd_cd_cases[where cmd = "cd_cmd [''~'']" and ?a0.0 = "[CHR 0x0A, T_CD]"
        and w = "quiet_world\<lparr>HOME := None\<rparr>", OF n]
    by (simp add: cd_cmd_def)
  have c: "cmd_cd (cd_cmd [''~foo'']) quiet_world =
       Done (CMD_FAILURE,
             eprint (''cd: tilde expansion is not supported'' @ [CHR 0x0A]) quiet_world)"
    using cmd_cd_cases[where cmd = "cd_cmd [''~foo'']" and ?a0.0 = "[CHR 0x0A, T_CD]"
        and w = quiet_world and x = "CHR ''f''" and xs = "''oo''", OF n]
    by (simp add: cd_cmd_def)
  have d: "cmd_cd (cd_cmd [''a'', ''b'']) quiet_world =
       Done (CMD_FAILURE, eprint (''cd: too many arguments'' @ [CHR 0x0A]) quiet_world)"
    using cmd_cd_cases[where cmd = "cd_cmd [''a'', ''b'']" and ?a0.0 = "[CHR 0x0A, T_CD]"
        and w = quiet_world and p = "''a''" and q = "''b''" and others = "[]", OF n]
    by (simp add: cd_cmd_def)
  have e: "cmd_cd (cd_cmd [''/tmp'']) quiet_world = Done (CMD_SUCCESS, quiet_world\<lparr>cwd := ''/tmp''\<rparr>)"
    using cmd_cd_cases[where cmd = "cd_cmd [''/tmp'']" and ?a0.0 = "[CHR 0x0A, T_CD]"
        and w = quiet_world and p = "''/tmp''" and d = "''/tmp''", OF n]
    by (simp add: cd_cmd_def quiet_world_def)
  have f: "cmd_cd (cd_cmd [''/nonexistent'']) quiet_world =
       Done (CMD_FAILURE,
             eprint (''cd: /nonexistent: No such file or directory'' @ [CHR 0x0A]) quiet_world)"
    using cmd_cd_cases[where cmd = "cd_cmd [''/nonexistent'']" and ?a0.0 = "[CHR 0x0A, T_CD]"
        and w = quiet_world and p = "''/nonexistent''"
        and e = "''No such file or directory''", OF n]
    by (simp add: cd_cmd_def quiet_world_def)
  from n[of "[]"] a b c d e f show ?thesis
    by blast
qed

lemma grows_refl: "grows w w"
  by (simp add: grows_def)

lemma grows_trans:
  assumes "grows w1 w2" "grows w2 w3"
  shows "grows w1 w3"
proof -
  from assms(1) obtain ps where a: "spawned w2 = spawned w1 @ ps"
    "children w2 = children w1 @ map pid ps" "\<forall>q\<in>set ps. 0 < pid q"
    unfolding grows_def by blast
  from assms(2) obtain qs where b: "spawned w3 = spawned w2 @ qs"
    "children w3 = children w2 @ map pid qs" "\<forall>q\<in>set qs. 0 < pid q"
    unfolding grows_def by blast
  have "spawned w3 = spawned w1 @ (ps @ qs) \<and> children w3 = children w1 @ map pid (ps @ qs)
      \<and> (\<forall>q\<in>set (ps @ qs). 0 < pid q)"
    using a b by auto
  then have "\<exists>rs. spawned w3 = spawned w1 @ rs \<and> children w3 = children w1 @ map pid rs
      \<and> (\<forall>q\<in>set rs. 0 < pid q)"
    by blast
  moreover have "child_exit w3 = child_exit w1 \<and> reap_choice w3 = reap_choice w1
      \<and> reaped w3 = reaped w1"
    using assms unfolding grows_def by simp
  ultimately show ?thesis
    unfolding grows_def by blast
qed

lemma grows_eprint: "grows w (eprint m w)"
  by (simp add: grows_def eprint_def)

lemma grows_perror: "grows w (perror s e w)"
  by (simp add: perror_def grows_eprint)

lemma grows_close: "grows w (close fd w)"
  by (simp add: grows_def close_def)

lemma grows_pipe: "grows w (snd (pipe w))"
  by (simp add: grows_def pipe_def)

lemma grows_fork: "grows w (snd (fork c fi fo w))"
  by (simp add: fork_def grows_def split: option.splits)

lemma cmd_cd_shape:
  "args c \<noteq> [] \<Longrightarrow>
   (\<exists>p. cmd_cd c w = Done (chdir p w)) \<or> (\<exists>m. cmd_cd c w = Done (CMD_FAILURE, eprint m w))"
  by (cases "args c") (auto simp: cmd_cd_def Let_def split: option.splits)

lemma chdir_shape:
  "(\<exists>d. chdir p w = (CMD_SUCCESS, w\<lparr>cwd := d\<rparr>)) \<or> (\<exists>m. chdir p w = (CMD_FAILURE, eprint m w))"
  by (auto simp: chdir_def split: sum.splits)

lemma grows_cwd: "grows w (w\<lparr>cwd := d\<rparr>)"
  by (simp add: grows_def)

lemma cmd_cd_done:
  assumes "args c \<noteq> []"
  shows "\<exists>r w'. cmd_cd c w = Done (r, w') \<and> r \<noteq> CMD_EXIT \<and> grows w w'
     \<and> fork_calls w' = fork_calls w \<and> pipe_calls w' = pipe_calls w
     \<and> pipe_result w' = pipe_result w \<and> fork_result w' = fork_result w"
proof -
  have a: "CMD_FAILURE \<noteq> CMD_EXIT \<and> grows w (eprint m w)
      \<and> fork_calls (eprint m w) = fork_calls w \<and> pipe_calls (eprint m w) = pipe_calls w
      \<and> pipe_result (eprint m w) = pipe_result w \<and> fork_result (eprint m w) = fork_result w"
    for m
    by (simp add: grows_eprint CMD_FAILURE_def CMD_EXIT_def) (simp add: eprint_def)
  have b: "CMD_SUCCESS \<noteq> CMD_EXIT \<and> grows w (w\<lparr>cwd := d\<rparr>)
      \<and> fork_calls (w\<lparr>cwd := d\<rparr>) = fork_calls w \<and> pipe_calls (w\<lparr>cwd := d\<rparr>) = pipe_calls w
      \<and> pipe_result (w\<lparr>cwd := d\<rparr>) = pipe_result w \<and> fork_result (w\<lparr>cwd := d\<rparr>) = fork_result w"
    for d
    by (simp add: grows_cwd CMD_SUCCESS_def CMD_EXIT_def)
  from cmd_cd_shape[OF assms, of w] show ?thesis
  proof
    assume "\<exists>p. cmd_cd c w = Done (chdir p w)"
    then obtain p where p: "cmd_cd c w = Done (chdir p w)" ..
    from chdir_shape[of p w] show ?thesis
    proof
      assume "\<exists>d. chdir p w = (CMD_SUCCESS, w\<lparr>cwd := d\<rparr>)"
      then obtain d where "chdir p w = (CMD_SUCCESS, w\<lparr>cwd := d\<rparr>)" ..
      with p b[of d] show ?thesis by simp
    next
      assume "\<exists>m. chdir p w = (CMD_FAILURE, eprint m w)"
      then obtain m where "chdir p w = (CMD_FAILURE, eprint m w)" ..
      with p a[of m] show ?thesis by simp
    qed
  next
    assume "\<exists>m. cmd_cd c w = Done (CMD_FAILURE, eprint m w)"
    then obtain m where "cmd_cd c w = Done (CMD_FAILURE, eprint m w)" ..
    with a[of m] show ?thesis by simp
  qed
qed

lemma spawn_cases:
  "args c \<noteq> [] \<Longrightarrow>
   spawn c fi fo w =
     (if is_exit c then Done (CMD_EXIT, w)
      else if is_cd c then cmd_cd c w
      else (case fork c fi fo w of
              (Inl e, w') \<Rightarrow> Done (CMD_FAILURE, perror ''minshell: process spawn error'' e w')
            | (Inr p, w') \<Rightarrow> Done (CMD_SUCCESS, w')))"
  by (cases "args c") (auto simp: spawn_def is_exit_def is_cd_def cmd_exit_def)

lemma fork_frame:
  "fork_calls (snd (fork c fi fo w)) = Suc (fork_calls w)
   \<and> pipe_calls (snd (fork c fi fo w)) = pipe_calls w
   \<and> pipe_result (snd (fork c fi fo w)) = pipe_result w
   \<and> fork_result (snd (fork c fi fo w)) = fork_result w"
  by (simp add: fork_def split: option.splits)

lemma perror_frame:
  "fork_calls (perror s e w) = fork_calls w \<and> pipe_calls (perror s e w) = pipe_calls w
   \<and> pipe_result (perror s e w) = pipe_result w \<and> fork_result (perror s e w) = fork_result w"
  by (simp add: perror_def eprint_def)

lemma spawn_done:
  assumes ne: "args c \<noteq> []"
  shows "\<exists>r w'. spawn c fi fo w = Done (r, w') \<and> (r = CMD_EXIT \<longleftrightarrow> is_exit c) \<and> grows w w'
     \<and> fork_calls w' = fork_calls w + (if is_exit c \<or> is_cd c then 0 else 1)
     \<and> pipe_calls w' = pipe_calls w
     \<and> pipe_result w' = pipe_result w \<and> fork_result w' = fork_result w"
proof (cases "is_exit c")
  case True
  then show ?thesis
    using spawn_cases[OF ne] by (simp add: grows_refl)
next
  case ex: False
  show ?thesis
  proof (cases "is_cd c")
    case True
    with ex cmd_cd_done[OF ne, of w] show ?thesis
      using spawn_cases[OF ne] by auto
  next
    case cd: False
    obtain res w1 where f: "fork c fi fo w = (res, w1)"
      by (cases "fork c fi fo w") auto
    have g: "grows w w1"
      using grows_fork[of w c fi fo] f by simp
    have fr: "fork_calls w1 = Suc (fork_calls w) \<and> pipe_calls w1 = pipe_calls w
      \<and> pipe_result w1 = pipe_result w \<and> fork_result w1 = fork_result w"
      using fork_frame[of c fi fo w] f by simp
    show ?thesis
    proof (cases res)
      case (Inl e)
      have "grows w (perror ''minshell: process spawn error'' e w1)"
        using g grows_perror by (rule grows_trans)
      with Inl f ex cd fr show ?thesis
        using spawn_cases[OF ne, of fi fo w] perror_frame[of _ e w1]
        by (simp add: CMD_FAILURE_def CMD_EXIT_def)
    next
      case (Inr p)
      with f ex cd fr g show ?thesis
        using spawn_cases[OF ne, of fi fo w] by (simp add: CMD_SUCCESS_def CMD_EXIT_def)
    qed
  qed
qed

text \<open>The wait loop reaps every child, and blocks for ever when one of them never ends.\<close>

lemma wait_loop_char:
  assumes pos: "\<forall>p\<in>set (children w). 0 < p"
  shows "if \<forall>p\<in>set (children w). child_exit w p \<noteq> None
     then \<exists>st w' rs. wait_loop s w = Done (st, w') \<and> children w' = []
            \<and> reaped w' = reaped w @ rs \<and> set (map fst rs) = set (children w)
            \<and> (\<forall>(q, x)\<in>set rs. \<exists>c. child_exit w q = Some c \<and> x = wstatus c)
            \<and> st = (if rs = [] then s else snd (last rs))
            \<and> spawned w' = spawned w \<and> fork_calls w' = fork_calls w \<and> cwd w' = cwd w
     else wait_loop s w = Blocked"
  using pos
proof (induction "length (children w)" arbitrary: s w rule: less_induct)
  case less
  show ?case
  proof (cases "children w = []")
    case True
    then have "wait_loop s w = Done (s, w)"
      by (subst wait_loop.simps) (simp add: wait_def)
    with True show ?thesis
      by simp
  next
    case ne: False
    let ?ts = "filter (\<lambda>p. child_exit w p \<noteq> None) (children w)"
    show ?thesis
    proof (cases "?ts = []")
      case True
      then have "wait_loop s w = Blocked"
        using ne by (subst wait_loop.simps) (simp add: wait_def)
      moreover have "\<not> (\<forall>p\<in>set (children w). child_exit w p \<noteq> None)"
        using True ne by (auto simp: filter_empty_conv)
      ultimately show ?thesis
        by simp
    next
      case tne: False
      define p where "p = ?ts ! (reap_choice w ?ts mod length ?ts)"
      have "reap_choice w ?ts mod length ?ts < length ?ts"
        using tne by simp
      then have "p \<in> set ?ts"
        unfolding p_def by (rule nth_mem)
      then have pin: "p \<in> set (children w)" and pex: "child_exit w p \<noteq> None"
        by simp_all
      then obtain c where c: "child_exit w p = Some c"
        by auto
      define w1 where "w1 = w\<lparr>children := remove1 p (children w),
                         reaped := reaped w @ [(p, wstatus c)]\<rparr>"
      have wt: "wait s w = Done (int p, wstatus c, w1)"
        using ne tne c unfolding wait_def p_def w1_def
        by (cases ?ts) (simp_all add: Let_def)
      have ppos: "0 < int p"
        using less.prems pin by simp
      have step: "wait_loop s w = wait_loop (wstatus c) w1"
        using wt ppos by (subst wait_loop.simps) simp
      have shorter: "length (children w1) < length (children w)"
        using pin ne by (simp add: w1_def length_remove1)
      have pos1: "\<forall>q\<in>set (children w1). 0 < q"
        using less.prems set_remove1_subset[of p "children w"] by (auto simp: w1_def)
      note IH = less.hyps[OF shorter pos1, of "wstatus c"]
      have ce: "child_exit w1 = child_exit w"
        by (simp add: w1_def)
      have sub: "set (children w) = insert p (set (children w1))"
      proof
        show "set (children w) \<subseteq> insert p (set (children w1))"
        proof
          fix x assume x: "x \<in> set (children w)"
          show "x \<in> insert p (set (children w1))"
          proof (cases "x = p")
            case True
            then show ?thesis by simp
          next
            case False
            then have "x \<in> set (remove1 p (children w))"
              using x by (simp add: in_set_remove1)
            then show ?thesis by (simp add: w1_def)
          qed
        qed
        show "insert p (set (children w1)) \<subseteq> set (children w)"
          using pin set_remove1_subset[of p "children w"] by (auto simp: w1_def)
      qed
      show ?thesis
      proof (cases "\<forall>q\<in>set (children w). child_exit w q \<noteq> None")
        case all: True
        then have "\<forall>q\<in>set (children w1). child_exit w1 q \<noteq> None"
          using sub ce by simp
        with IH obtain st w' rs where r: "wait_loop (wstatus c) w1 = Done (st, w')"
          and e: "children w' = []" and rp: "reaped w' = reaped w1 @ rs"
          and ids: "set (map fst rs) = set (children w1)"
          and sts: "\<forall>(q, x)\<in>set rs. \<exists>c. child_exit w1 q = Some c \<and> x = wstatus c"
          and st: "st = (if rs = [] then wstatus c else snd (last rs))"
          and fr: "spawned w' = spawned w1" "fork_calls w' = fork_calls w1" "cwd w' = cwd w1"
          by auto
        let ?rs = "(p, wstatus c) # rs"
        have "reaped w' = reaped w @ ?rs"
          using rp by (simp add: w1_def)
        moreover have "set (map fst ?rs) = set (children w)"
          using ids sub by simp
        moreover have "\<forall>(q, x)\<in>set ?rs. \<exists>c. child_exit w q = Some c \<and> x = wstatus c"
          using sts c ce by auto
        moreover have "st = (if ?rs = [] then s else snd (last ?rs))"
          using st by simp
        moreover have "spawned w' = spawned w \<and> fork_calls w' = fork_calls w \<and> cwd w' = cwd w"
          using fr by (simp add: w1_def)
        ultimately show ?thesis
          using all step r e by (simp del: set_map)
      next
        case some: False
        then have "\<not> (\<forall>q\<in>set (children w1). child_exit w1 q \<noteq> None)"
          using sub ce pex by auto
        with IH have "wait_loop (wstatus c) w1 = Blocked"
          by simp
        with some step show ?thesis
          by simp
      qed
    qed
  qed
qed

lemma cmd_at_stage: "i < length cs \<Longrightarrow> cmd_at (map Some cs @ junk) i = Done (cs ! i)"
  by (simp add: cmd_at_def nth_append)

lemma exec_pipe_loop_done:
  assumes wf: "\<forall>c\<in>set cs. args c \<noteq> []"
  shows "i < length cs \<Longrightarrow>
    \<exists>ex w'. exec_pipe_loop (map Some cs @ junk) (length cs) i fi w = Done (ex, w') \<and> grows w w'
      \<and> (case ex of Return r \<Rightarrow> r = CMD_EXIT \<and> (\<exists>c\<in>set cs. is_exit c)
          | Leave k fi' \<Rightarrow> i \<le> k \<and> k < length cs)"
proof (induction "length cs - i" arbitrary: i fi w rule: less_induct)
  case less
  let ?cmds = "map Some cs @ junk"
  show ?case
  proof (cases "int i < int (length cs) - 1")
    case False
    then have "exec_pipe_loop ?cmds (length cs) i fi w = Done (Leave i fi, w)"
      by (subst exec_pipe_loop.simps) simp
    with less.prems show ?thesis
      by (simp add: grows_refl)
  next
    case lt: True
    obtain res w1 where p: "pipe w = (res, w1)"
      by (cases "pipe w") auto
    have g1: "grows w w1"
      using grows_pipe[of w] p by simp
    show ?thesis
    proof (cases res)
      case (Inl e)
      have "exec_pipe_loop ?cmds (length cs) i fi w =
          Done (Leave i fi, perror ''minshell: pipe error'' e w1)"
        using lt p Inl by (subst exec_pipe_loop.simps) simp
      moreover have "grows w (perror ''minshell: pipe error'' e w1)"
        using g1 grows_perror by (rule grows_trans)
      ultimately show ?thesis
        using less.prems by simp
    next
      case (Inr fds)
      obtain rd wr where fds: "fds = (rd, wr)"
        by (cases fds) auto
      have at: "cmd_at ?cmds i = Done (cs ! i)"
        using less.prems by (rule cmd_at_stage)
      have ne: "args (cs ! i) \<noteq> []"
        using wf less.prems by simp
      obtain r w2 where sp: "spawn (cs ! i) fi wr w1 = Done (r, w2)"
        and rx: "r = CMD_EXIT \<longleftrightarrow> is_exit (cs ! i)" and g2: "grows w1 w2"
        using spawn_done[OF ne, of fi wr w1] by blast
      have g12: "grows w w2"
        using g1 g2 by (rule grows_trans)
      show ?thesis
      proof (cases "r = CMD_EXIT")
        case True
        have "exec_pipe_loop ?cmds (length cs) i fi w = Done (Return CMD_EXIT, w2)"
          using lt p Inr fds at sp True by (subst exec_pipe_loop.simps) simp
        moreover have "\<exists>c\<in>set cs. is_exit c"
          using rx True less.prems by auto
        ultimately show ?thesis
          using g12 by simp
      next
        case False
        have step: "exec_pipe_loop ?cmds (length cs) i fi w =
            exec_pipe_loop ?cmds (length cs) (i + 1) rd (close wr w2)"
          using lt p Inr fds at sp False by (subst exec_pipe_loop.simps) simp
        have i1: "i + 1 < length cs"
          using lt by simp
        have m: "length cs - (i + 1) < length cs - i"
          using less.prems by simp
        obtain ex w' where r: "exec_pipe_loop ?cmds (length cs) (i + 1) rd (close wr w2)
              = Done (ex, w')"
          and g3: "grows (close wr w2) w'"
          and c: "case ex of Return r \<Rightarrow> r = CMD_EXIT \<and> (\<exists>c\<in>set cs. is_exit c)
              | Leave k fi' \<Rightarrow> i + 1 \<le> k \<and> k < length cs"
          using less.hyps[OF m i1, of rd "close wr w2"] by blast
        have "grows w2 w'"
          using grows_close g3 by (rule grows_trans)
        with g12 have "grows w w'"
          by (rule grows_trans)
        moreover have "case ex of Return r \<Rightarrow> r = CMD_EXIT \<and> (\<exists>c\<in>set cs. is_exit c)
              | Leave k fi' \<Rightarrow> i \<le> k \<and> k < length cs"
          using c by (cases ex) simp_all
        ultimately show ?thesis
          using step r by simp
      qed
    qed
  qed
qed

text \<open>
  The pipeline \<open>false | true\<close>, when the child running \<open>false\<close> exits with code 1 and is
  reaped before the child running \<open>true\<close>: the status of the line is success.
\<close>

theorem failed_stage_reaped_first:
  "exec_pipe [Some (plain_cmd [''false'']), Some (plain_cmd [''true''])] 2 first_fails_world =
     Done (CMD_SUCCESS,
           first_fails_world
             \<lparr>pipe_calls := 1, fork_calls := 2,
              spawned := [\<lparr>pid = 1, pcmd = plain_cmd [''false''], fd_in = 0, fd_out = 4\<rparr>,
                          \<lparr>pid = 2, pcmd = plain_cmd [''true''], fd_in = 3, fd_out = 1\<rparr>],
              reaped := [(1, 256), (2, 0)], closed := [4]\<rparr>)
   \<and> child_exit first_fails_world 1 = Some 1"
  by (simp add: exec_eval first_fails_world_def quiet_world_def plain_cmd_def numeral_2_eq_2)

lemma wait_frame:
  "wait s w = Done (r, s', w') \<Longrightarrow>
   w'\<lparr>children := c, reaped := rp\<rparr> = w\<lparr>children := c, reaped := rp\<rparr>"
  by (auto simp: wait_def Let_def split: if_splits list.splits option.splits)

lemma wait_count:
  assumes "wait s w = Done (r, s', w')"
  shows "length (reaped w') + length (children w') = length (reaped w) + length (children w)"
proof (cases "children w = []")
  case True
  with assms show ?thesis
    by (simp add: wait_def)
next
  case ne: False
  define ts where "ts = filter (\<lambda>p. child_exit w p \<noteq> None) (children w)"
  define p where "p = ts ! (reap_choice w ts mod length ts)"
  from assms ne have tne: "ts \<noteq> []"
    by (auto simp: wait_def ts_def split: list.splits)
  then have "p \<in> set ts"
    by (simp add: p_def)
  then have pin: "p \<in> set (children w)"
    by (simp add: ts_def)
  from assms ne tne have "children w' = remove1 p (children w)"
    and "length (reaped w') = Suc (length (reaped w))"
    by (auto simp: wait_def Let_def ts_def p_def split: list.splits option.splits)
  moreover have "0 < length (children w)"
    using ne by simp
  moreover have "length (remove1 p (children w)) = length (children w) - 1"
    using pin by (simp add: length_remove1)
  ultimately show ?thesis
    by simp
qed

lemma wait_loop_frame:
  "wait_loop s w = Done (st, w') \<Longrightarrow>
   w'\<lparr>children := c, reaped := rp\<rparr> = w\<lparr>children := c, reaped := rp\<rparr>
   \<and> length (reaped w') + length (children w') = length (reaped w) + length (children w)"
proof (induction s w rule: wait_loop.induct)
  case (1 status w)
  show ?case
  proof (cases "wait status w")
    case (Done x)
    obtain r s1 w1 where x: "x = (r, s1, w1)"
      by (cases x) auto
    have f: "w1\<lparr>children := c, reaped := rp\<rparr> = w\<lparr>children := c, reaped := rp\<rparr>"
      using Done x by (intro wait_frame[of status w r s1 w1]) simp
    have n: "length (reaped w1) + length (children w1) = length (reaped w) + length (children w)"
      using Done x by (intro wait_count[of status w r s1 w1]) simp
    show ?thesis
    proof (cases "0 < r")
      case True
      have "wait_loop status w = wait_loop s1 w1"
        using Done x True by (subst wait_loop.simps) simp
      with "1.prems" have "wait_loop s1 w1 = Done (st, w')"
        by simp
      then have "w'\<lparr>children := c, reaped := rp\<rparr> = w1\<lparr>children := c, reaped := rp\<rparr>
          \<and> length (reaped w') + length (children w') = length (reaped w1) + length (children w1)"
        using "1.IH"[OF Done _ _ True, of "(s1, w1)" s1 w1] x by simp
      with f n show ?thesis
        by simp
    next
      case False
      have "wait_loop status w = Done (s1, w1)"
        using Done x False by (subst wait_loop.simps) simp
      with "1.prems" have "w' = w1"
        by simp
      with f n show ?thesis
        by simp
    qed
  next
    case (Fault f)
    then have "wait_loop status w = Fault f"
      by (subst wait_loop.simps) simp
    with "1.prems" show ?thesis
      by simp
  next
    case Blocked
    then have "wait_loop status w = Blocked"
      by (subst wait_loop.simps) simp
    with "1.prems" show ?thesis
      by simp
  qed
qed


text \<open>
  C1 (as amended).  \<open>exec_pipe\<close> on a pipeline of two or more commands, each with a program
  name and none of them the built-in \<open>exit\<close>, in a world whose children have positive
  process ids.  It reaches its wait loop in the world \<open>w2\<close> left by its \<open>for\<close> loop and the
  spawn of the last stage handled; the children of \<open>w2\<close> are those the interpreter had and
  those forked since, \<open>ps\<close>.
  \<^item> If one of these children never ends, \<open>exec_pipe\<close> blocks for ever; a process that is
    not among them makes no difference.
  \<^item> Otherwise \<open>exec_pipe\<close> returns.  Every child has been reaped, each once: \<open>rs\<close> lists
    them in the order of reaping, each with the wait status of its exit code.  The world is
    \<open>w2\<close> with no children and with \<open>rs\<close> added to the log of reaped children.  The status
    is success exactly when no child was reaped or the wait status of the child reaped last
    is 0, whatever the other children returned.
\<close>

theorem pipeline_status_is_last_reaped:
  assumes wf: "\<forall>c\<in>set cs. args c \<noteq> []" and noexit: "\<forall>c\<in>set cs. \<not> is_exit c"
    and multi: "2 \<le> length cs" and pos: "\<forall>p\<in>set (children w). 0 < p"
  shows "\<exists>k fi w1 r2 w2 ps.
      exec_pipe_loop (map Some cs @ junk) (length cs) 0 STDIN_FILENO w = Done (Leave k fi, w1)
    \<and> k < length cs \<and> spawn (cs ! k) fi STDOUT_FILENO w1 = Done (r2, w2)
    \<and> spawned w2 = spawned w @ ps \<and> children w2 = children w @ map pid ps
    \<and> child_exit w2 = child_exit w \<and> reaped w2 = reaped w
    \<and> (if \<exists>p\<in>set (children w2). child_exit w p = None
        then exec_pipe (map Some cs @ junk) (length cs) w = Blocked
        else \<exists>rs. exec_pipe (map Some cs @ junk) (length cs) w =
                 Done (if rs = [] \<or> snd (last rs) = 0 then CMD_SUCCESS else CMD_FAILURE,
                       w2\<lparr>children := [], reaped := reaped w @ rs\<rparr>)
               \<and> set (map fst rs) = set (children w2) \<and> length rs = length (children w2)
               \<and> (\<forall>(q, x)\<in>set rs. \<exists>c. child_exit w q = Some c \<and> x = wstatus c))"
proof -
  let ?cmds = "map Some cs @ junk"
  have i0: "0 < length cs"
    using multi by (cases cs) simp_all
  obtain ex w1 where lp: "exec_pipe_loop ?cmds (length cs) 0 STDIN_FILENO w = Done (ex, w1)"
    and g1: "grows w w1"
    and c: "case ex of Return r \<Rightarrow> r = CMD_EXIT \<and> (\<exists>c\<in>set cs. is_exit c)
        | Leave k fi' \<Rightarrow> 0 \<le> k \<and> k < length cs"
    using exec_pipe_loop_done[OF wf i0, of junk STDIN_FILENO w] by blast
  from c noexit obtain k fi where ex: "ex = Leave k fi" and k: "k < length cs"
    by (cases ex) auto
  have at: "cmd_at ?cmds k = Done (cs ! k)"
    using k by (rule cmd_at_stage)
  have mem: "cs ! k \<in> set cs"
    using k by simp
  have ne: "args (cs ! k) \<noteq> []" and nx: "\<not> is_exit (cs ! k)"
    using wf noexit mem by simp_all
  obtain r2 w2 where sp: "spawn (cs ! k) fi STDOUT_FILENO w1 = Done (r2, w2)"
    and rx: "r2 = CMD_EXIT \<longleftrightarrow> is_exit (cs ! k)" and g2: "grows w1 w2"
    using spawn_done[OF ne, of fi STDOUT_FILENO w1] by blast
  have r2: "r2 \<noteq> CMD_EXIT"
    using rx nx by simp
  have g: "grows w w2"
    using g1 g2 by (rule grows_trans)
  have ep: "exec_pipe ?cmds (length cs) w =
      (case wait_loop 0 w2 of
         Done (status, w3) \<Rightarrow> Done (if status = 0 then CMD_SUCCESS else CMD_FAILURE, w3)
       | Fault f \<Rightarrow> Fault f | Blocked \<Rightarrow> Blocked)"
    using lp ex at sp r2 by (simp add: exec_pipe_def)
  from g have ce: "child_exit w2 = child_exit w" and rp: "reaped w2 = reaped w"
    by (simp_all add: grows_def)
  from g have "\<exists>ps. spawned w2 = spawned w @ ps \<and> children w2 = children w @ map pid ps
      \<and> (\<forall>q\<in>set ps. 0 < pid q)"
    unfolding grows_def by (elim conjE)
  then obtain ps :: "proc list" where ps: "spawned w2 = spawned w @ ps"
    "children w2 = children w @ map pid ps" "\<forall>q\<in>set ps. 0 < pid q"
    by blast
  have pos2: "\<forall>p\<in>set (children w2). 0 < p"
    using pos ps by auto
  note wl = wait_loop_char[OF pos2, of 0]
  have tail: "if \<exists>p\<in>set (children w2). child_exit w p = None
        then exec_pipe ?cmds (length cs) w = Blocked
        else \<exists>rs. exec_pipe ?cmds (length cs) w =
                 Done (if rs = [] \<or> snd (last rs) = 0 then CMD_SUCCESS else CMD_FAILURE,
                       w2\<lparr>children := [], reaped := reaped w @ rs\<rparr>)
               \<and> set (map fst rs) = set (children w2) \<and> length rs = length (children w2)
               \<and> (\<forall>(q, x)\<in>set rs. \<exists>c. child_exit w q = Some c \<and> x = wstatus c)"
  proof (cases "\<forall>p\<in>set (children w2). child_exit w2 p \<noteq> None")
    case False
    with wl have "wait_loop 0 w2 = Blocked"
      by simp
    moreover have "\<exists>p\<in>set (children w2). child_exit w p = None"
      using False ce by simp
    ultimately show ?thesis
      using ep by simp
  next
    case True
    with wl obtain st w3 rs where w: "wait_loop 0 w2 = Done (st, w3)"
      and e: "children w3 = []" and r3: "reaped w3 = reaped w2 @ rs"
      and ids: "set (map fst rs) = set (children w2)"
      and sts: "\<forall>(q, x)\<in>set rs. \<exists>c. child_exit w2 q = Some c \<and> x = wstatus c"
      and st: "st = (if rs = [] then 0 else snd (last rs))"
      by auto
    have fr: "w3\<lparr>children := [], reaped := reaped w @ rs\<rparr>
        = w2\<lparr>children := [], reaped := reaped w @ rs\<rparr>"
      and cnt: "length (reaped w3) + length (children w3)
        = length (reaped w2) + length (children w2)"
      using wait_loop_frame[where c = "[]" and rp = "reaped w @ rs", OF w] by simp_all
    have "w3\<lparr>children := children w3, reaped := reaped w3\<rparr> = w3"
      by simp
    then have "w3\<lparr>children := [], reaped := reaped w @ rs\<rparr> = w3"
      using e r3 rp by simp
    with fr have w3: "w3 = w2\<lparr>children := [], reaped := reaped w @ rs\<rparr>"
      by simp
    have len: "length rs = length (children w2)"
      using cnt e r3 by simp
    have "exec_pipe ?cmds (length cs) w =
        Done (if rs = [] \<or> snd (last rs) = 0 then CMD_SUCCESS else CMD_FAILURE, w3)"
      using ep w st by simp
    then have res: "exec_pipe ?cmds (length cs) w =
        Done (if rs = [] \<or> snd (last rs) = 0 then CMD_SUCCESS else CMD_FAILURE,
              w2\<lparr>children := [], reaped := reaped w @ rs\<rparr>)"
      using w3 by simp
    have sts': "\<forall>(q, x)\<in>set rs. \<exists>c. child_exit w q = Some c \<and> x = wstatus c"
      using sts ce by simp
    have neg: "\<not> (\<exists>p\<in>set (children w2). child_exit w p = None)"
      using True ce by simp
    have "\<exists>rs. exec_pipe ?cmds (length cs) w =
                 Done (if rs = [] \<or> snd (last rs) = 0 then CMD_SUCCESS else CMD_FAILURE,
                       w2\<lparr>children := [], reaped := reaped w @ rs\<rparr>)
               \<and> set (map fst rs) = set (children w2) \<and> length rs = length (children w2)
               \<and> (\<forall>(q, x)\<in>set rs. \<exists>c. child_exit w q = Some c \<and> x = wstatus c)"
      using res ids len sts' by blast
    then show ?thesis
      by (subst if_not_P[OF neg])
  qed
  show ?thesis
    using lp ex k sp ps(1,2) ce rp tail by blast
qed

theorem pipeline_status_is_last_reaped_witness:
  "args (plain_cmd [''false'']) \<noteq> [] \<and> args (plain_cmd [''true'']) \<noteq> []
   \<and> is_exit (plain_cmd [''false'']) = False \<and> is_exit (plain_cmd [''true'']) = False
   \<and> 2 \<le> length [plain_cmd [''false''], plain_cmd [''true'']]
   \<and> children first_fails_world = []
   \<and> (\<exists>r w' rs. exec_pipe [Some (plain_cmd [''false'']), Some (plain_cmd [''true''])] 2
                    first_fails_world = Done (r, w')
         \<and> children w' = [] \<and> reaped w' = rs \<and> set (map fst rs) = {1, 2} \<and> length rs = 2)"
proof -
  let ?cs = "[plain_cmd [''false''], plain_cmd [''true'']]"
  have a0: "args (plain_cmd [''false'']) \<noteq> [] \<and> args (plain_cmd [''true'']) \<noteq> []"
    by (simp add: plain_cmd_def)
  then have a: "\<forall>c\<in>set ?cs. args c \<noteq> []"
    by simp
  have x0: "is_exit (plain_cmd [''false'']) = False \<and> is_exit (plain_cmd [''true'']) = False"
    by (simp add: plain_cmd_def is_exit_def char_at_def)
  then have x: "\<forall>c\<in>set ?cs. \<not> is_exit c"
    by simp
  have b: "2 \<le> length ?cs"
    by simp
  have c0: "children first_fails_world = []"
    by (simp add: first_fails_world_def quiet_world_def)
  then have c: "\<forall>p\<in>set (children first_fails_world). 0 < p"
    by simp
  have nb: "child_exit first_fails_world p \<noteq> None" for p
    by (simp add: first_fails_world_def)
  have r0: "reaped first_fails_world = []" and s0: "spawned first_fails_world = []"
    by (simp_all add: first_fails_world_def quiet_world_def)
  from pipeline_status_is_last_reaped[OF a x b c, of "[]"]
  obtain w2 and ps :: "proc list" where
    sp: "spawned w2 = spawned first_fails_world @ ps"
    and ch: "children w2 = children first_fails_world @ map pid ps"
    and tail: "if \<exists>p\<in>set (children w2). child_exit first_fails_world p = None
        then exec_pipe (map Some ?cs @ []) (length ?cs) first_fails_world = Blocked
        else \<exists>rs. exec_pipe (map Some ?cs @ []) (length ?cs) first_fails_world =
                 Done (if rs = [] \<or> snd (last rs) = 0 then CMD_SUCCESS else CMD_FAILURE,
                       w2\<lparr>children := [], reaped := reaped first_fails_world @ rs\<rparr>)
               \<and> set (map fst rs) = set (children w2) \<and> length rs = length (children w2)
               \<and> (\<forall>(q, x)\<in>set rs. \<exists>c. child_exit first_fails_world q = Some c
                      \<and> x = wstatus c)"
    by blast
  have "\<not> (\<exists>p\<in>set (children w2). child_exit first_fails_world p = None)"
    using nb by simp
  with tail obtain rs where
    e: "exec_pipe (map Some ?cs @ []) (length ?cs) first_fails_world =
          Done (if rs = [] \<or> snd (last rs) = 0 then CMD_SUCCESS else CMD_FAILURE,
                w2\<lparr>children := [], reaped := reaped first_fails_world @ rs\<rparr>)"
    and ids: "set (map fst rs) = set (children w2)" and len: "length rs = length (children w2)"
    by auto
  define w' where "w' = w2\<lparr>children := [], reaped := reaped first_fails_world @ rs\<rparr>"
  define r where "r = (if rs = [] \<or> snd (last rs) = 0 then CMD_SUCCESS else CMD_FAILURE)"
  have e': "exec_pipe [Some (plain_cmd [''false'']), Some (plain_cmd [''true''])] 2
      first_fails_world = Done (r, w')"
    using e by (simp add: numeral_2_eq_2 w'_def r_def)
  have "map pid (spawned w') = [1, 2]"
    using e' by (auto simp: exec_eval first_fails_world_def quiet_world_def plain_cmd_def
        numeral_2_eq_2)
  then have "map pid ps = [1, 2]"
    using sp s0 by (simp add: w'_def)
  then have "children w2 = [1, 2]"
    using ch c0 by simp
  then have "set (map fst rs) = {1, 2}" "length rs = 2"
    using ids len by simp_all
  moreover have "children w' = []" "reaped w' = rs"
    using r0 by (simp_all add: w'_def)
  ultimately have "\<exists>r w' rs. exec_pipe [Some (plain_cmd [''false'']), Some (plain_cmd [''true''])] 2
                    first_fails_world = Done (r, w')
         \<and> children w' = [] \<and> reaped w' = rs \<and> set (map fst rs) = {1, 2} \<and> length rs = 2"
    using e' by blast
  with a0 x0 b c0 show ?thesis
    by blast
qed


lemma env_eq_sym: "env_eq w1 w2 \<Longrightarrow> env_eq w2 w1"
  by (simp add: env_eq_def)


























end
